theory Spec2Isabelle
  imports Main "HOL-Library.Word"
begin

unbundle bit_operations_syntax

section \<open>The ring buffer of logger.c\<close>

text \<open>
  The target is an MSP430: \<open>int\<close> is 16 bits wide, so arithmetic on \<open>uint16_t\<close>
  operands wraps modulo \<open>2 ^ 16\<close>.  The header declaring \<open>RingBuffer\<close> is not among
  the sources; the index fields are given the width of the \<open>uint16_t\<close> locals and
  arguments they are mixed with in logger.c, and the buffer holds \<open>char\<close>s.
\<close>

type_synonym byte = "8 word"
type_synonym uint8_t = "8 word"
type_synonym uint16_t = "16 word"
type_synonym uint32_t = "32 word"

record RingBuffer =
  buffer :: "byte list"
  head :: uint16_t
  tail :: uint16_t
  len :: uint16_t
  mask_rb :: uint16_t
  overflow :: uint8_t

text \<open>\<open>#define rb_getused_m(b) ((b->tail==b->head) ? 0:(b->head - b->tail + b->len) % b->len)\<close>\<close>

definition rb_getused_m :: "RingBuffer \<Rightarrow> uint16_t" where
  "rb_getused_m b = (if tail b = head b then 0 else (head b - tail b + len b) mod len b)"

text \<open>\<open>#define rb_getfree_m(b) ((b->tail==b->head) ? b->len : (b->tail - b->head + b->len) % b->len)\<close>\<close>

definition rb_getfree_m :: "RingBuffer \<Rightarrow> uint16_t" where
  "rb_getfree_m b = (if tail b = head b then len b else (tail b - head b + len b) mod len b)"

text \<open>
  \<open>memcpy(dst + doff, src + soff, n)\<close> on arrays as lists.  In C a copy that leaves
  either array is undefined; here the destination keeps its length and cells outside it
  are not written.
\<close>

definition memcpy :: "'a list \<Rightarrow> nat \<Rightarrow> 'a list \<Rightarrow> nat \<Rightarrow> nat \<Rightarrow> 'a list" where
  "memcpy dst doff src soff n =
     map (\<lambda>j. if doff \<le> j \<and> j < doff + n then src ! (soff + (j - doff)) else dst ! j)
       [0..<length dst]"

text \<open>\<open>uint8_t ringbuf_write(RingBuffer *buf, char* data, uint16_t n)\<close>: the result is
  the returned code and the buffer after the call.\<close>

definition ringbuf_write :: "RingBuffer \<Rightarrow> byte list \<Rightarrow> uint16_t \<Rightarrow> uint8_t \<times> RingBuffer" where
  "ringbuf_write buf data n =
     (if n \<ge> len buf then (1, buf)
      else if rb_getfree_m buf < n then (1, buf\<lparr>overflow := 1\<rparr>)
      else if head buf + n < len buf then
        (let b1 = buf\<lparr>buffer := memcpy (buffer buf) (unat (head buf)) data 0 (unat n)\<rparr>;
             b2 = b1\<lparr>head := (head b1 + n) AND mask_rb b1\<rparr>
         in (0, b2))
      else
        (let rem = len buf - head buf;
             b1 = buf\<lparr>buffer := memcpy (buffer buf) (unat (head buf)) data 0 (unat rem)\<rparr>;
             b2 = b1\<lparr>head := (head b1 + rem) AND mask_rb b1\<rparr>;
             b3 = b2\<lparr>buffer := memcpy (buffer b2) (unat (head b2)) data (unat rem) (unat (n - rem))\<rparr>;
             b4 = b3\<lparr>head := (head b3 + (n - rem)) AND mask_rb b3\<rparr>
         in (0, b4)))"

text \<open>\<open>uint8_t ringbuf_read(RingBuffer *buf, char* read_buffer, uint16_t n)\<close>: the result
  is the returned code, the destination array after the call and the buffer after the
  call.\<close>

definition ringbuf_read ::
  "RingBuffer \<Rightarrow> byte list \<Rightarrow> uint16_t \<Rightarrow> uint8_t \<times> byte list \<times> RingBuffer" where
  "ringbuf_read buf read_buffer n0 =
     (if n0 \<ge> len buf then (1, read_buffer, buf)
      else
        (let n = (if n0 > rb_getused_m buf then rb_getused_m buf else n0) in
         if tail buf + n < len buf then
           (let rb1 = memcpy read_buffer 0 (buffer buf) (unat (tail buf)) (unat n);
                b1 = buf\<lparr>tail := (tail buf + n) AND mask_rb buf\<rparr>
            in (0, rb1, b1))
         else
           (let rem = len buf - tail buf;
                rb1 = memcpy read_buffer 0 (buffer buf) (unat (tail buf)) (unat rem);
                b1 = buf\<lparr>tail := (tail buf + rem) AND mask_rb buf\<rparr>;
                rb2 = memcpy rb1 (unat rem) (buffer b1) (unat (tail b1)) (unat (n - rem));
                b2 = b1\<lparr>tail := (tail b1 + (n - rem)) AND mask_rb b1\<rparr>
            in (0, rb2, b2))))"

text \<open>
  The initialisation at the top of \<open>sd_setup\<close>:
  \<open>sdbuf->buffer = ringbuf; sdbuf->head = sdbuf->tail = sdbuf->overflow = 0;
  sdbuf->len = SD_RINGBUF_LEN; sdbuf->mask = sdbuf->len - 1;\<close>
  The constant \<open>SD_RINGBUF_LEN\<close> is declared in a header that is not among the sources
  and is a parameter here, as is the array \<open>ringbuf\<close> of that length.
\<close>

definition rb_init :: "byte list \<Rightarrow> uint16_t \<Rightarrow> RingBuffer" where
  "rb_init ringbuf SD_RINGBUF_LEN =
     \<lparr>buffer = ringbuf, head = 0, tail = 0, len = SD_RINGBUF_LEN,
      mask_rb = SD_RINGBUF_LEN - 1, overflow = 0\<rparr>"

text \<open>
  The states the program keeps the buffer in: the length is a power of two (the mask is
  only meaningful then), the mask is the length minus one, both indices are below the
  length and the array has the declared length.
\<close>

definition rb_inv :: "RingBuffer \<Rightarrow> bool" where
  "rb_inv b \<longleftrightarrow>
     (\<exists>k \<in> set [0..<16]. len b = 2 ^ k) \<and> mask_rb b = len b - 1 \<and>
     head b < len b \<and> tail b < len b \<and> length (buffer b) = unat (len b)"

text \<open>
  The bytes the buffer holds, oldest first: the cells from \<open>tail\<close> up to \<open>head\<close>,
  read around the end of the array.  This is what a reader is owed next.
\<close>

definition rb_contents :: "RingBuffer \<Rightarrow> byte list" where
  "rb_contents b =
     map (\<lambda>i. buffer b ! ((unat (tail b) + i) mod unat (len b))) [0..<unat (rb_getused_m b)]"

text \<open>
  Sequences of calls on one buffer.  A read names the destination array it is given.  What
  a caller can observe of a call is the returned code and, for a read, the destination
  array afterwards.
\<close>

datatype rb_op = Op_write "byte list" uint16_t | Op_read "byte list" uint16_t

fun rb_step :: "rb_op \<Rightarrow> RingBuffer \<Rightarrow> (uint8_t \<times> byte list) \<times> RingBuffer" where
  "rb_step (Op_write data n) b = (let (r, b') = ringbuf_write b data n in ((r, []), b'))"
| "rb_step (Op_read dst n) b = (let (r, out, b') = ringbuf_read b dst n in ((r, out), b'))"

fun rb_run :: "rb_op list \<Rightarrow> RingBuffer \<Rightarrow> (uint8_t \<times> byte list) list \<times> RingBuffer" where
  "rb_run [] b = ([], b)"
| "rb_run (op # ops) b =
     (let (x, b') = rb_step op b; (xs, b'') = rb_run ops b' in (x # xs, b''))"

text \<open>The bytes a sequence of calls hands to the writes, in order.\<close>

fun written :: "rb_op list \<Rightarrow> byte list" where
  "written [] = []"
| "written (Op_write data n # ops) = take (unat n) data @ written ops"
| "written (Op_read dst n # ops) = written ops"

text \<open>
  The bytes the reads of a sequence copy out, in order: a read of \<open>n\<close> copies
  \<open>min n (rb_getused_m buf)\<close> bytes to the front of its destination.
\<close>

fun read_out :: "rb_op list \<Rightarrow> RingBuffer \<Rightarrow> byte list" where
  "read_out [] b = []"
| "read_out (Op_write data n # ops) b = read_out ops (snd (ringbuf_write b data n))"
| "read_out (Op_read dst n # ops) b =
     (let (r, out, b') = ringbuf_read b dst n
      in take (min (unat n) (unat (rb_getused_m b))) out @ read_out ops b')"

text \<open>
  A sequence of calls that stays within the usable capacity \<open>len - 1\<close>: every write is
  shorter than the buffer, is given at least \<open>n\<close> bytes and leaves the occupancy below
  \<open>len\<close>; every read asks for fewer than \<open>len\<close> bytes and has room for them.
\<close>

fun within_capacity :: "rb_op list \<Rightarrow> RingBuffer \<Rightarrow> bool" where
  "within_capacity [] b = True"
| "within_capacity (Op_write data n # ops) b \<longleftrightarrow>
     n < len b \<and> unat n \<le> length data \<and> unat (rb_getused_m b) + unat n < unat (len b) \<and>
     within_capacity ops (snd (ringbuf_write b data n))"
| "within_capacity (Op_read dst n # ops) b \<longleftrightarrow>
     n < len b \<and> unat n \<le> length dst \<and>
     within_capacity ops (snd (snd (ringbuf_read b dst n)))"

text \<open>
  A sequence of calls that the program's own checks accept: every write passes both tests
  of \<open>ringbuf_write\<close> (\<open>n < len\<close> and \<open>rb_getfree_m buf \<ge> n\<close>), every read passes the
  test of \<open>ringbuf_read\<close>.
\<close>

fun accepted :: "rb_op list \<Rightarrow> RingBuffer \<Rightarrow> bool" where
  "accepted [] b = True"
| "accepted (Op_write data n # ops) b \<longleftrightarrow>
     n < len b \<and> unat n \<le> length data \<and> n \<le> rb_getfree_m b \<and>
     accepted ops (snd (ringbuf_write b data n))"
| "accepted (Op_read dst n # ops) b \<longleftrightarrow>
     n < len b \<and> unat n \<le> length dst \<and>
     accepted ops (snd (snd (ringbuf_read b dst n)))"

text \<open>
  Two buffers that no sequence of calls can tell apart: the same indices, length, mask and
  flag, and the same bytes between \<open>tail\<close> and \<open>head\<close>.  The cells outside that range
  may differ.
\<close>

definition same_view :: "RingBuffer \<Rightarrow> RingBuffer \<Rightarrow> bool" where
  "same_view b1 b2 \<longleftrightarrow>
     rb_inv b1 \<and> rb_inv b2 \<and> head b1 = head b2 \<and> tail b1 = tail b2 \<and> len b1 = len b2 \<and>
     mask_rb b1 = mask_rb b2 \<and> overflow b1 = overflow b2 \<and> rb_contents b1 = rb_contents b2"

section \<open>The logging session of logger.c\<close>

text \<open>
  The storage driver, the display, the serial console and the sensors are outside the
  sources.  Each call to them is recorded in a trace, oldest first; the result codes the
  storage driver returns are inputs.  \<open>FRESULT\<close> is the driver's result code, with
  \<open>FR_OK\<close> being 0 (the program tests results both with \<open>fr != FR_OK\<close> and with
  \<open>if(fr)\<close>).
\<close>

type_synonym FRESULT = nat

definition FR_OK :: FRESULT where
  "FR_OK = 0"

datatype event =
    Call_f_open
  | Call_f_write "byte list"
  | Call_f_sync
  | Call_f_close
  | Uart_debug string FRESULT
  | Lcd_debug string
  | Lcd_debug_code string FRESULT
  | Lcd_row nat string
  | Lcd_buffer_pct uint16_t
  | Delay_ms nat
  | Adc_convert
  | Cma3000_readAccelFSM

text \<open>
  The file-scope variables of logger.c that the session uses: \<open>sdbuf\<close>, \<open>writebuf\<close>,
  \<open>logger_running\<close>, \<open>file_open\<close> and \<open>time\<close>; \<open>ta1_up\<close> says whether the mode
  control bits of \<open>TA1CTL\<close> select up mode (the sampling timer counts) or stop.
\<close>

record logger_state =
  sdbuf :: RingBuffer
  writebuf :: "byte list"
  logger_running :: uint8_t
  file_open :: uint8_t
  time :: uint32_t
  ta1_up :: bool
  trace :: "event list"

text \<open>
  The state \<open>logger_init\<close> and the first lines of \<open>sd_setup\<close> establish: statics are
  zero, \<open>logger_running = 0\<close>, the ring buffer is initialised over \<open>ringbuf\<close>, and
  \<open>writebuf\<close> has 512 cells.
\<close>

definition logger_init :: "uint16_t \<Rightarrow> logger_state" where
  "logger_init SD_RINGBUF_LEN =
     \<lparr>sdbuf = rb_init (replicate (unat SD_RINGBUF_LEN) 0) SD_RINGBUF_LEN,
      writebuf = replicate 512 0, logger_running = 0, file_open = 0, time = 0,
      ta1_up = False, trace = [Lcd_row 1 ''Logging: OFF'']\<rparr>"

text \<open>\<open>void logger_enable(void)\<close> and \<open>void logger_disable(void)\<close>.\<close>

definition logger_enable :: "logger_state \<Rightarrow> logger_state" where
  "logger_enable st =
     st\<lparr>logger_running := 1, ta1_up := True, trace := trace st @ [Lcd_row 1 ''Logging: ON'']\<rparr>"

definition logger_disable :: "logger_state \<Rightarrow> logger_state" where
  "logger_disable st =
     st\<lparr>logger_running := 0, ta1_up := False, trace := trace st @ [Lcd_row 1 ''Logging: OFF'']\<rparr>"

text \<open>
  \<open>interrupt(PORT1_VECTOR) PORT1_ISR(void)\<close>.  \<open>s1\<close> stands for the test
  \<open>P1IV & P1IV_P1IFG7\<close> (button S1 raised the interrupt); \<open>now\<close> is the value of the
  first call of \<open>clock_time()\<close>, in the condition, and \<open>now'\<close> the value of the second
  one, which is stored.  The subtraction is on \<open>uint32_t\<close>.
\<close>

definition PORT1_ISR :: "bool \<Rightarrow> uint32_t \<Rightarrow> uint32_t \<Rightarrow> logger_state \<Rightarrow> logger_state" where
  "PORT1_ISR s1 now now' st =
     (if s1 \<and> now - time st > 250 then
        (let st1 = st\<lparr>time := now'\<rparr>
         in if logger_running st1 \<noteq> 0 then logger_disable st1 else logger_enable st1)
      else st)"

text \<open>
  \<open>interrupt(TIMER1_A0_VECTOR) TIMER1_A0_ISR(void)\<close>.  \<open>sb\<close> is the sample buffer as
  bytes, so \<open>sizeof(SampleBuffer)\<close> is its length; \<open>now\<close> is the value of
  \<open>clock_time()\<close>.
\<close>

definition TIMER1_A0_ISR :: "byte list \<Rightarrow> uint32_t \<Rightarrow> logger_state \<Rightarrow> logger_state" where
  "TIMER1_A0_ISR sb now st =
     (let st1 = (if file_open st \<noteq> 0
                 then st\<lparr>sdbuf := snd (ringbuf_write (sdbuf st) sb (of_nat (length sb)))\<rparr>
                 else st);
          st2 = st1\<lparr>trace := trace st1 @ [Adc_convert]\<rparr>
      in if now mod 100 = 0 then st2\<lparr>trace := trace st2 @ [Cma3000_readAccelFSM]\<rparr> else st2)"

text \<open>
  \<open>FRESULT sd_write(RingBuffer *rb, char *writebuf, FIL *fil, uint16_t n)\<close>; \<open>fr\<close> is
  the code \<open>f_write\<close> returns.  \<open>f_write\<close> is handed the first \<open>n\<close> bytes of
  \<open>writebuf\<close>; when \<open>n\<close> exceeds the size of \<open>writebuf\<close> the C code runs past the
  array, which has no defined result: \<open>None\<close>.  The two writes to \<open>P1OUT\<close> that switch the
  LED around the call touch no variable of the program and are left out.
\<close>

definition sd_write :: "FRESULT \<Rightarrow> uint16_t \<Rightarrow> logger_state \<Rightarrow> (FRESULT \<times> logger_state) option" where
  "sd_write fr n st =
     (if length (writebuf st) < unat n then None
      else
        (let (r, wb, rb) = ringbuf_read (sdbuf st) (writebuf st) n;
             st1 = st\<lparr>sdbuf := rb, writebuf := wb,
                      trace := trace st @ [Call_f_write (take (unat n) wb)]\<rparr>;
             st2 = (if fr \<noteq> 0 then st1\<lparr>trace := trace st1 @ [Lcd_debug_code ''write fail'' fr]\<rparr>
                    else st1)
         in Some (fr, st2)))"

text \<open>
  Retrying in \<open>sd_setup\<close>: \<open>while(fr != FR_OK) { ... }\<close>.  \<open>fr\<close> is the code of the last
  attempt and the list holds the codes the following attempts will return; a loop that
  uses them up without seeing \<open>FR_OK\<close> has not returned: \<open>None\<close>.
\<close>

fun open_retry :: "FRESULT \<Rightarrow> FRESULT list \<Rightarrow> event list \<Rightarrow> event list option" where
  "open_retry fr [] tr = (if fr \<noteq> FR_OK then None else Some tr)"
| "open_retry fr (r # rs) tr =
     (if fr \<noteq> FR_OK
      then open_retry r rs (tr @ [Delay_ms 500, Uart_debug ''Open fail'' fr, Call_f_open])
      else Some tr)"

fun close_retry :: "FRESULT \<Rightarrow> FRESULT list \<Rightarrow> event list \<Rightarrow> event list option" where
  "close_retry fr [] tr = (if fr \<noteq> FR_OK then None else Some tr)"
| "close_retry fr (r # rs) tr =
     (if fr \<noteq> FR_OK
      then close_retry r rs (tr @ [Lcd_debug_code ''close fail'' fr, Call_f_close, Delay_ms 100])
      else Some tr)"

text \<open>
  The body of the \<open>while(1)\<close> loop of \<open>sd_setup\<close>, one block at a time.

  \<open>if(logger_running && !file_open) { ... }\<close>: \<open>rs\<close> are the codes \<open>f_open\<close> returns.
\<close>

definition sd_setup_open :: "FRESULT list \<Rightarrow> logger_state \<Rightarrow> logger_state option" where
  "sd_setup_open rs st =
     (if logger_running st \<noteq> 0 \<and> file_open st = 0 then
        (case rs of
           [] \<Rightarrow> None
         | r # rs' \<Rightarrow>
             (case open_retry r rs' (trace st @ [Call_f_open]) of
                None \<Rightarrow> None
              | Some tr \<Rightarrow>
                  Some (st\<lparr>sdbuf := (sdbuf st)\<lparr>overflow := 0\<rparr>, file_open := 1,
                           trace := tr @ [Lcd_debug []]\<rparr>)))
      else Some st)"

text \<open>
  \<open>if(!logger_running && file_open) { ... }\<close>: \<open>wr\<close> is the code \<open>f_write\<close> returns,
  \<open>sr\<close> the code of \<open>f_sync\<close> and \<open>crs\<close> the codes \<open>f_close\<close> returns.
\<close>

definition sd_setup_close ::
  "FRESULT \<Rightarrow> FRESULT \<Rightarrow> FRESULT list \<Rightarrow> logger_state \<Rightarrow> logger_state option" where
  "sd_setup_close wr sr crs st =
     (if logger_running st = 0 \<and> file_open st \<noteq> 0 then
        (case sd_write wr (rb_getused_m (sdbuf st)) st of
           None \<Rightarrow> None
         | Some (fr, st1) \<Rightarrow>
             (let st2 = st1\<lparr>trace := trace st1 @ [Call_f_sync]\<rparr>;
                  st3 = (if sr \<noteq> 0 then st2\<lparr>trace := trace st2 @ [Lcd_debug ''sync fail'']\<rparr>
                         else st2)
              in case crs of
                   [] \<Rightarrow> None
                 | c # cs \<Rightarrow>
                     (case close_retry c cs (trace st3 @ [Call_f_close]) of
                        None \<Rightarrow> None
                      | Some tr \<Rightarrow> Some (st3\<lparr>trace := tr, file_open := 0\<rparr>))))
      else Some st)"

text \<open>\<open>if((rb_getused_m(sdbuf) > 512) && file_open && logger_running)
  sd_write(sdbuf, writebuf, &fil, 512);\<close>\<close>

definition sd_setup_drain :: "FRESULT \<Rightarrow> logger_state \<Rightarrow> logger_state option" where
  "sd_setup_drain wr st =
     (if rb_getused_m (sdbuf st) > 512 \<and> file_open st \<noteq> 0 \<and> logger_running st \<noteq> 0
      then map_option snd (sd_write wr 512 st)
      else Some st)"

text \<open>
  \<open>if((clock_time() % 333) == 0) update_lcd(sdbuf);\<close>  Of \<open>update_lcd\<close> the lines that
  read the ring buffer are kept: the occupancy in percent, computed on \<open>uint16_t\<close>, and
  the overflow report.  The storage figures it prints come from the driver.
\<close>

definition update_lcd :: "logger_state \<Rightarrow> logger_state" where
  "update_lcd st =
     (let b = sdbuf st;
          st1 = st\<lparr>trace := trace st @ [Lcd_buffer_pct ((100 * rb_getused_m b) div len b)]\<rparr>
      in if overflow b \<noteq> 0 then st1\<lparr>trace := trace st1 @ [Lcd_debug ''Buffer overflow'']\<rparr>
         else st1)"

definition sd_setup_status :: "uint32_t \<Rightarrow> logger_state \<Rightarrow> logger_state option" where
  "sd_setup_status now st = (if now mod 333 = 0 then Some (update_lcd st) else Some st)"

text \<open>
  The program as a transition system: the supervisory loop runs its blocks in order, and
  the two interrupt handlers may run between any two of them.
\<close>

datatype action =
    Timer_tick "byte list" uint32_t
  | Button_S1 bool uint32_t uint32_t
  | Loop_open "FRESULT list"
  | Loop_close FRESULT FRESULT "FRESULT list"
  | Loop_drain FRESULT
  | Loop_status uint32_t

fun step :: "action \<Rightarrow> logger_state \<Rightarrow> logger_state option" where
  "step (Timer_tick sb now) st = Some (TIMER1_A0_ISR sb now st)"
| "step (Button_S1 s1 now now') st = Some (PORT1_ISR s1 now now' st)"
| "step (Loop_open rs) st = sd_setup_open rs st"
| "step (Loop_close wr sr crs) st = sd_setup_close wr sr crs st"
| "step (Loop_drain wr) st = sd_setup_drain wr st"
| "step (Loop_status now) st = sd_setup_status now st"

fun exec :: "action list \<Rightarrow> logger_state \<Rightarrow> logger_state option" where
  "exec [] st = Some st"
| "exec (a # as) st = (case step a st of None \<Rightarrow> None | Some st' \<Rightarrow> exec as st')"

text \<open>One pass through the body of the loop, in the order of the source.\<close>

definition sd_setup_loop ::
  "FRESULT list \<Rightarrow> FRESULT \<Rightarrow> FRESULT \<Rightarrow> FRESULT list \<Rightarrow> FRESULT \<Rightarrow> uint32_t \<Rightarrow>
   logger_state \<Rightarrow> logger_state option" where
  "sd_setup_loop rs wr sr crs wr' now st =
     exec [Loop_open rs, Loop_close wr sr crs, Loop_drain wr', Loop_status now] st"

text \<open>The calls to the storage driver among the events of a trace.\<close>

fun is_storage_call :: "event \<Rightarrow> bool" where
  "is_storage_call Call_f_open = True"
| "is_storage_call (Call_f_write bs) = True"
| "is_storage_call Call_f_sync = True"
| "is_storage_call Call_f_close = True"
| "is_storage_call e = False"

text \<open>
  An action that performs the per-session reset: the open block of the loop, taken with
  logging on and no file open.
\<close>

fun opens_session :: "action \<Rightarrow> logger_state \<Rightarrow> bool" where
  "opens_session (Loop_open rs) st \<longleftrightarrow> logger_running st \<noteq> 0 \<and> file_open st = 0"
| "opens_session a st \<longleftrightarrow> False"

text \<open>
  An action that writes to the ring buffer and is refused for lack of room: the timer
  handler, with a file open, a sample shorter than the buffer and less free space than
  the sample needs.
\<close>

fun write_lacks_space :: "action \<Rightarrow> logger_state \<Rightarrow> bool" where
  "write_lacks_space (Timer_tick sb now) st \<longleftrightarrow>
     file_open st \<noteq> 0 \<and> of_nat (length sb) < len (sdbuf st) \<and>
     rb_getfree_m (sdbuf st) < of_nat (length sb) \<and>
     fst (ringbuf_write (sdbuf st) sb (of_nat (length sb))) \<noteq> 0"
| "write_lacks_space a st \<longleftrightarrow> False"

text \<open>No action of a run performs the per-session reset.\<close>

fun no_session_opened :: "action list \<Rightarrow> logger_state \<Rightarrow> bool" where
  "no_session_opened [] st = True"
| "no_session_opened (a # as) st \<longleftrightarrow>
     \<not> opens_session a st \<and>
     (case step a st of None \<Rightarrow> True | Some st' \<Rightarrow> no_session_opened as st')"

section \<open>From machine words to positions in the array\<close>

lemma unat_pow2_16: "k < 16 \<Longrightarrow> unat ((2::16 word) ^ k) = 2 ^ k"
proof -
  assume k: "k < 16"
  then have "(0::16 word) < 2 ^ k" by (simp add: word_gt_0)
  then have "uint ((2::16 word) ^ k) = 2 ^ k" by (rule uint_2p)
  then have "int (unat ((2::16 word) ^ k)) = int (2 ^ k)" by simp
  then show ?thesis by (simp only: of_nat_eq_iff)
qed

lemma pow2_le: "k < 16 \<Longrightarrow> (2::nat) ^ k \<le> 32768"
proof -
  assume "k < 16"
  then have "k \<le> 15" by simp
  then have "(2::nat) ^ k \<le> 2 ^ 15" by (rule power_increasing) simp
  then show ?thesis by simp
qed

lemma rb_inv_len: "rb_inv b \<Longrightarrow> 0 < unat (len b) \<and> unat (len b) \<le> 32768"
  unfolding rb_inv_def by (auto simp: unat_pow2_16 pow2_le)

lemma rb_inv_len_word: "rb_inv b \<Longrightarrow> len b \<noteq> 0 \<and> len b \<le> 32768"
  using rb_inv_len [of b] by (auto simp: word_le_nat_alt unat_eq_0 [symmetric] simp del: unat_eq_0)

lemma rb_inv_mask: "rb_inv b \<Longrightarrow> x < len b \<Longrightarrow> x AND mask_rb b = x"
  unfolding rb_inv_def by (auto simp: mask_eq_decr_exp [symmetric] less_mask_eq)

lemma rb_inv_mask_len: "rb_inv b \<Longrightarrow> len b AND mask_rb b = 0"
  unfolding rb_inv_def
proof (clarsimp simp: mask_eq_decr_exp [symmetric])
  fix k :: nat
  assume "k < 16"
  then have "2 ^ k dvd unat ((2::16 word) ^ k)" by (simp add: unat_pow2_16)
  then show "(2::16 word) ^ k AND mask k = 0" by (simp only: and_mask_dvd_nat)
qed

lemma mod_wrap: "a < L \<Longrightarrow> b < L \<Longrightarrow> (a + b) mod L = (if a + b < L then a + b else a + b - (L::nat))"
  by (simp add: le_mod_geq)

lemma mod_wrap2: "a < L \<Longrightarrow> b \<le> L \<Longrightarrow> (a + L - b) mod L = (if b \<le> a then a - b else a + L - (b::nat))"
  by (simp add: diff_add_inverse diff_add_inverse2 le_add_diff_inverse mod_if)

lemma rb_inv_idx: "rb_inv b \<Longrightarrow> unat (head b) < unat (len b) \<and> unat (tail b) < unat (len b)"
  by (simp add: rb_inv_def word_less_nat_alt)

lemma word_add_small:
  fixes x y l :: "16 word"
  assumes "x < l" "y \<le> l" "l \<le> 32768"
  shows "unat (x + y) = unat x + unat y"
proof -
  have "unat x < unat l" and "unat y \<le> unat l" and "unat l \<le> 32768"
    using assms by (simp_all add: word_less_nat_alt word_le_nat_alt)
  then show ?thesis
    by (intro unat_add_lem [THEN iffD1]) simp
qed

lemma word_circ_diff:
  fixes x y l :: "16 word"
  assumes "x < l" "y < l" "l \<le> 32768"
  shows "unat (x - y + l) = unat x + unat l - unat y"
proof -
  have yl: "unat y < unat l"
    using assms by (simp add: word_less_nat_alt)
  have 1: "unat (x + l) = unat x + unat l"
    using assms by (intro word_add_small [of x l l]) simp_all
  have 2: "y \<le> x + l"
    using yl by (simp add: word_le_nat_alt 1)
  have "x - y + l = x + l - y" by simp
  then show ?thesis by (simp only: unat_sub [OF 2] 1)
qed

lemma circ_compl:
  "h < L \<Longrightarrow> t < L \<Longrightarrow> t \<noteq> h \<Longrightarrow> (t + L - h) mod L = L - (h + L - t) mod (L::nat)"
  by (auto simp: mod_wrap2)

lemma unat_used: "rb_inv b \<Longrightarrow>
  unat (rb_getused_m b) = (unat (head b) + unat (len b) - unat (tail b)) mod unat (len b)"
proof -
  assume inv: "rb_inv b"
  then have h: "head b < len b" and t: "tail b < len b" by (simp_all add: rb_inv_def)
  from inv have l: "len b \<le> 32768" by (simp add: rb_inv_len_word)
  show ?thesis
  proof (cases "tail b = head b")
    case True
    then show ?thesis by (simp add: rb_getused_m_def)
  next
    case False
    then show ?thesis
      by (simp add: rb_getused_m_def unat_mod word_circ_diff [OF h t l])
  qed
qed

lemma unat_free: "rb_inv b \<Longrightarrow> unat (rb_getfree_m b) = unat (len b) - unat (rb_getused_m b)"
proof -
  assume inv: "rb_inv b"
  then have h: "head b < len b" and t: "tail b < len b" by (simp_all add: rb_inv_def)
  from inv have l: "len b \<le> 32768" by (simp add: rb_inv_len_word)
  have hn: "unat (head b) < unat (len b)" and tn: "unat (tail b) < unat (len b)"
    using inv by (simp_all add: rb_inv_idx)
  show ?thesis
  proof (cases "tail b = head b")
    case True
    then show ?thesis by (simp add: rb_getfree_m_def rb_getused_m_def)
  next
    case False
    then have ne: "unat (tail b) \<noteq> unat (head b)" by (simp add: word_unat_eq_iff)
    have f: "unat (rb_getfree_m b) = (unat (tail b) + unat (len b) - unat (head b)) mod unat (len b)"
      using False by (simp add: rb_getfree_m_def unat_mod word_circ_diff [OF t h l])
    have u: "unat (rb_getused_m b) = (unat (head b) + unat (len b) - unat (tail b)) mod unat (len b)"
      using inv by (rule unat_used)
    show ?thesis
      unfolding f u using hn tn ne by (rule circ_compl)
  qed
qed

lemma used_lt_len: "rb_inv b \<Longrightarrow> unat (rb_getused_m b) < unat (len b)"
  using rb_inv_len [of b] by (simp add: unat_used)

section \<open>What a successful write and a read do\<close>

lemma memcpy_length [simp]: "length (memcpy dst doff src soff n) = length dst"
  by (simp add: memcpy_def)

lemma memcpy_nth:
  "j < length dst \<Longrightarrow>
   memcpy dst doff src soff n ! j =
     (if doff \<le> j \<and> j < doff + n then src ! (soff + (j - doff)) else dst ! j)"
  by (simp add: memcpy_def)

lemma write_nowrap:
  assumes "rb_inv b" "n < len b" "\<not> rb_getfree_m b < n" "head b + n < len b"
  shows "ringbuf_write b data n =
    (0, b\<lparr>buffer := memcpy (buffer b) (unat (head b)) data 0 (unat n), head := head b + n\<rparr>)"
  using assms rb_inv_mask [of b "head b + n"]
  by (simp add: ringbuf_write_def Let_def linorder_not_le [symmetric])

lemma wrap_rem:
  fixes x n l :: "16 word"
  assumes "x < l" "n < l" "l \<le> 32768" "\<not> x + n < l"
  shows "l - x \<le> n" and "unat (l - x) = unat l - unat x"
    and "unat (n - (l - x)) = unat x + unat n - unat l" and "n - (l - x) < l"
proof -
  have xn: "unat (x + n) = unat x + unat n"
    using assms by (intro word_add_small [of x l n]) simp_all
  have ge: "unat l \<le> unat x + unat n"
    using assms(4) by (simp add: word_less_nat_alt xn)
  have xl: "unat x < unat l" and nl: "unat n < unat l"
    using assms by (simp_all add: word_less_nat_alt)
  show r: "unat (l - x) = unat l - unat x"
    using assms(1) by (simp add: unat_sub)
  show le: "l - x \<le> n"
    using ge by (simp add: word_le_nat_alt r)
  show d: "unat (n - (l - x)) = unat x + unat n - unat l"
    using xl by (simp add: unat_sub [OF le] r)
  show "n - (l - x) < l"
    using xl nl by (simp add: word_less_nat_alt d)
qed

lemma write_wrap:
  assumes "rb_inv b" "n < len b" "\<not> rb_getfree_m b < n" "\<not> head b + n < len b"
  shows "ringbuf_write b data n =
    (0, b\<lparr>buffer := memcpy (memcpy (buffer b) (unat (head b)) data 0 (unat (len b) - unat (head b)))
                   0 data (unat (len b) - unat (head b)) (unat (head b) + unat n - unat (len b)),
          head := n - (len b - head b)\<rparr>)"
proof -
  have h: "head b < len b" using assms(1) by (simp add: rb_inv_def)
  have l: "len b \<le> 32768" using assms(1) by (simp add: rb_inv_len_word)
  note w = wrap_rem [OF h assms(2) l assms(4)]
  have m: "(n - (len b - head b)) AND mask_rb b = n - (len b - head b)"
    using assms(1) w(4) by (rule rb_inv_mask)
  show ?thesis
    using assms(2-4) rb_inv_mask_len [OF assms(1)]
    by (simp add: ringbuf_write_def Let_def linorder_not_le [symmetric] w(2) w(3) m)
qed

lemma write_frame:
  assumes "rb_inv b" "n < len b" "\<not> rb_getfree_m b < n"
  shows "fst (ringbuf_write b data n) = 0"
    and "tail (snd (ringbuf_write b data n)) = tail b"
    and "len (snd (ringbuf_write b data n)) = len b"
    and "mask_rb (snd (ringbuf_write b data n)) = mask_rb b"
    and "overflow (snd (ringbuf_write b data n)) = overflow b"
    and "length (buffer (snd (ringbuf_write b data n))) = length (buffer b)"
  using write_nowrap [OF assms, of data] write_wrap [OF assms, of data]
  by (cases "head b + n < len b"; simp)+

lemma write_head:
  assumes "rb_inv b" "n < len b" "\<not> rb_getfree_m b < n"
  shows "unat (head (snd (ringbuf_write b data n))) = (unat (head b) + unat n) mod unat (len b)"
proof -
  have h: "head b < len b" using assms(1) by (simp add: rb_inv_def)
  have l: "len b \<le> 32768" using assms(1) by (simp add: rb_inv_len_word)
  have hn: "unat (head b) < unat (len b)" and nn: "unat n < unat (len b)"
    using h assms(2) by (simp_all add: word_less_nat_alt)
  have xn: "unat (head b + n) = unat (head b) + unat n"
    using h assms(2) l by (intro word_add_small [of _ "len b"]) simp_all
  show ?thesis
  proof (cases "head b + n < len b")
    case True
    then have "unat (head b) + unat n < unat (len b)"
      by (simp add: word_less_nat_alt xn)
    then show ?thesis
      by (simp add: write_nowrap [OF assms True] xn)
  next
    case False
    then have "\<not> unat (head b) + unat n < unat (len b)"
      by (simp add: word_less_nat_alt xn)
    then show ?thesis
      using hn nn
      by (simp add: write_wrap [OF assms False] wrap_rem(3) [OF h assms(2) l False] mod_wrap)
  qed
qed

lemma write_buffer_nth:
  assumes "rb_inv b" "n < len b" "\<not> rb_getfree_m b < n" "i < unat (len b)"
  shows "buffer (snd (ringbuf_write b data n)) ! ((unat (head b) + i) mod unat (len b)) =
    (if i < unat n then data ! i else buffer b ! ((unat (head b) + i) mod unat (len b)))"
proof -
  have h: "head b < len b" using assms(1) by (simp add: rb_inv_def)
  have l: "len b \<le> 32768" using assms(1) by (simp add: rb_inv_len_word)
  have bl: "length (buffer b) = unat (len b)" using assms(1) by (simp add: rb_inv_def)
  have hn: "unat (head b) < unat (len b)" and nn: "unat n < unat (len b)"
    using h assms(2) by (simp_all add: word_less_nat_alt)
  have xn: "unat (head b + n) = unat (head b) + unat n"
    using h assms(2) l by (intro word_add_small [of _ "len b"]) simp_all
  show ?thesis
  proof (cases "head b + n < len b")
    case True
    then have "unat (head b) + unat n < unat (len b)"
      by (simp add: word_less_nat_alt xn)
    then show ?thesis
      using hn nn assms(4) bl
      by (auto simp: write_nowrap [OF assms(1-3) True] memcpy_nth mod_wrap)
  next
    case False
    then have "\<not> unat (head b) + unat n < unat (len b)"
      by (simp add: word_less_nat_alt xn)
    then show ?thesis
      using hn nn assms(4) bl
      by (auto simp: write_wrap [OF assms(1-3) False] memcpy_nth mod_wrap)
  qed
qed

lemma read_clamp_lt:
  assumes "rb_inv b" "n0 < len b" "k = (if rb_getused_m b < n0 then rb_getused_m b else n0)"
  shows "k < len b" and "unat k = min (unat n0) (unat (rb_getused_m b))"
  using assms by (auto simp: word_less_nat_alt)

lemma read_nowrap:
  assumes "rb_inv b" "n0 < len b" "k = (if rb_getused_m b < n0 then rb_getused_m b else n0)"
    "tail b + k < len b"
  shows "ringbuf_read b rb n0 =
    (0, memcpy rb 0 (buffer b) (unat (tail b)) (unat k), b\<lparr>tail := tail b + k\<rparr>)"
proof -
  have eq: "(if rb_getused_m b < n0 then rb_getused_m b else n0) = k"
    using assms(3) by simp
  show ?thesis
    unfolding ringbuf_read_def Let_def eq
    using assms(2,4) rb_inv_mask [OF assms(1,4)]
    by (simp add: linorder_not_le [symmetric])
qed

lemma read_wrap:
  assumes "rb_inv b" "n0 < len b" "k = (if rb_getused_m b < n0 then rb_getused_m b else n0)"
    "\<not> tail b + k < len b"
  shows "ringbuf_read b rb n0 =
    (0, memcpy (memcpy rb 0 (buffer b) (unat (tail b)) (unat (len b) - unat (tail b)))
          (unat (len b) - unat (tail b)) (buffer b) 0 (unat (tail b) + unat k - unat (len b)),
     b\<lparr>tail := k - (len b - tail b)\<rparr>)"
proof -
  have t: "tail b < len b" using assms(1) by (simp add: rb_inv_def)
  have l: "len b \<le> 32768" using assms(1) by (simp add: rb_inv_len_word)
  have k: "k < len b" using assms(1-3) by (rule read_clamp_lt)
  note w = wrap_rem [OF t k l assms(4)]
  have m: "(k - (len b - tail b)) AND mask_rb b = k - (len b - tail b)"
    using assms(1) w(4) by (rule rb_inv_mask)
  have eq: "(if rb_getused_m b < n0 then rb_getused_m b else n0) = k"
    using assms(3) by simp
  show ?thesis
    unfolding ringbuf_read_def Let_def eq
    using assms(2,4) rb_inv_mask_len [OF assms(1)]
    by (simp add: linorder_not_le [symmetric] w(2) w(3) m)
qed

lemma read_frame:
  assumes "rb_inv b" "n0 < len b"
  shows "fst (ringbuf_read b rb n0) = 0"
    and "head (snd (snd (ringbuf_read b rb n0))) = head b"
    and "len (snd (snd (ringbuf_read b rb n0))) = len b"
    and "mask_rb (snd (snd (ringbuf_read b rb n0))) = mask_rb b"
    and "overflow (snd (snd (ringbuf_read b rb n0))) = overflow b"
    and "buffer (snd (snd (ringbuf_read b rb n0))) = buffer b"
    and "length (fst (snd (ringbuf_read b rb n0))) = length rb"
  using read_nowrap [OF assms refl, of rb] read_wrap [OF assms refl, of rb]
  by (cases "tail b + (if rb_getused_m b < n0 then rb_getused_m b else n0) < len b"; simp)+

lemma read_tail:
  assumes "rb_inv b" "n0 < len b"
  shows "unat (tail (snd (snd (ringbuf_read b rb n0)))) =
    (unat (tail b) + min (unat n0) (unat (rb_getused_m b))) mod unat (len b)"
proof -
  define k where "k = (if rb_getused_m b < n0 then rb_getused_m b else n0)"
  have t: "tail b < len b" using assms(1) by (simp add: rb_inv_def)
  have l: "len b \<le> 32768" using assms(1) by (simp add: rb_inv_len_word)
  have k: "k < len b" and ku: "unat k = min (unat n0) (unat (rb_getused_m b))"
    using read_clamp_lt [OF assms k_def] by simp_all
  have tn: "unat (tail b) < unat (len b)" and kn: "unat k < unat (len b)"
    using t k by (simp_all add: word_less_nat_alt)
  have xn: "unat (tail b + k) = unat (tail b) + unat k"
    using t k l by (intro word_add_small [of _ "len b"]) simp_all
  show ?thesis
  proof (cases "tail b + k < len b")
    case True
    then have "unat (tail b) + unat k < unat (len b)"
      by (simp add: word_less_nat_alt xn)
    then show ?thesis
      by (simp add: read_nowrap [OF assms k_def True] xn ku [symmetric])
  next
    case False
    then have "\<not> unat (tail b) + unat k < unat (len b)"
      by (simp add: word_less_nat_alt xn)
    then show ?thesis
      using tn kn
      by (simp add: read_wrap [OF assms k_def False] wrap_rem(3) [OF t k l False] mod_wrap
          ku [symmetric])
  qed
qed

lemma read_out_nth:
  assumes "rb_inv b" "n0 < len b" "i < length rb"
  shows "fst (snd (ringbuf_read b rb n0)) ! i =
    (if i < min (unat n0) (unat (rb_getused_m b))
     then buffer b ! ((unat (tail b) + i) mod unat (len b)) else rb ! i)"
proof -
  define k where "k = (if rb_getused_m b < n0 then rb_getused_m b else n0)"
  have t: "tail b < len b" using assms(1) by (simp add: rb_inv_def)
  have l: "len b \<le> 32768" using assms(1) by (simp add: rb_inv_len_word)
  have k: "k < len b" and ku: "unat k = min (unat n0) (unat (rb_getused_m b))"
    using read_clamp_lt [OF assms(1,2) k_def] by simp_all
  have tn: "unat (tail b) < unat (len b)" and kn: "unat k < unat (len b)"
    using t k by (simp_all add: word_less_nat_alt)
  have xn: "unat (tail b + k) = unat (tail b) + unat k"
    using t k l by (intro word_add_small [of _ "len b"]) simp_all
  show ?thesis
  proof (cases "tail b + k < len b")
    case True
    then have "unat (tail b) + unat k < unat (len b)"
      by (simp add: word_less_nat_alt xn)
    then show ?thesis
      using tn kn assms(3) unfolding ku [symmetric]
      by (auto simp: read_nowrap [OF assms(1,2) k_def True] memcpy_nth mod_wrap)
  next
    case False
    then have "\<not> unat (tail b) + unat k < unat (len b)"
      by (simp add: word_less_nat_alt xn)
    then show ?thesis
      using tn kn assms(3) unfolding ku [symmetric]
      by (auto simp: read_wrap [OF assms(1,2) k_def False] memcpy_nth mod_wrap add.commute)
  qed
qed

section \<open>The invariant and the occupancy\<close>

lemma rb_inv_init:
  "k < 16 \<Longrightarrow> length ringbuf = 2 ^ k \<Longrightarrow> rb_inv (rb_init ringbuf (2 ^ k))"
  by (auto simp: rb_inv_def rb_init_def unat_pow2_16 word_gt_0)

lemma rb_inv_write:
  assumes "rb_inv b"
  shows "rb_inv (snd (ringbuf_write b data n))"
proof (cases "len b \<le> n \<or> rb_getfree_m b < n")
  case True
  then show ?thesis
    using assms by (auto simp: ringbuf_write_def rb_inv_def)
next
  case False
  then have n: "n < len b" and f: "\<not> rb_getfree_m b < n" by auto
  have "unat (head (snd (ringbuf_write b data n))) < unat (len b)"
    using rb_inv_len [OF assms] by (simp add: write_head [OF assms n f])
  then have "head (snd (ringbuf_write b data n)) < len b"
    by (simp add: word_less_nat_alt)
  then show ?thesis
    using assms by (simp add: rb_inv_def write_frame [OF assms n f])
qed

lemma rb_inv_read:
  assumes "rb_inv b"
  shows "rb_inv (snd (snd (ringbuf_read b rb n)))"
proof (cases "len b \<le> n")
  case True
  then show ?thesis
    using assms by (simp add: ringbuf_read_def)
next
  case False
  then have n: "n < len b" by simp
  have "unat (tail (snd (snd (ringbuf_read b rb n)))) < unat (len b)"
    using rb_inv_len [OF assms] by (simp add: read_tail [OF assms n])
  then have "tail (snd (snd (ringbuf_read b rb n))) < len b"
    by (simp add: word_less_nat_alt)
  then show ?thesis
    using assms by (simp add: rb_inv_def read_frame [OF assms n])
qed

lemma used_plus_free: "rb_inv b \<Longrightarrow> unat (rb_getused_m b) + unat (rb_getfree_m b) = unat (len b)"
  using used_lt_len [of b] by (simp add: unat_free)

lemma circ_used_write:
  fixes h t N L :: nat
  assumes "h < L" "t < L" "N < L" "N \<le> L - (h + L - t) mod L"
  shows "((h + N) mod L + L - t) mod L =
    (if (h + L - t) mod L + N < L then (h + L - t) mod L + N else 0)"
proof (cases "t \<le> h")
  case True
  with assms have u: "(h + L - t) mod L = h - t" by (simp add: mod_wrap2)
  show ?thesis
  proof (cases "h + N < L")
    case True
    with assms \<open>t \<le> h\<close> show ?thesis unfolding u by (simp add: mod_wrap mod_wrap2)
  next
    case False
    show ?thesis
    proof (cases "h - t + N < L")
      case True
      with assms \<open>t \<le> h\<close> False show ?thesis unfolding u by (auto simp: mod_wrap mod_wrap2)
    next
      case full: False
      with assms \<open>t \<le> h\<close> have "h + N - t = L" unfolding u by simp
      with assms \<open>t \<le> h\<close> False full show ?thesis unfolding u by (simp add: mod_wrap mod_wrap2)
    qed
  qed
next
  case False
  with assms have u: "(h + L - t) mod L = h + L - t" by (simp add: mod_wrap2)
  from assms False have "h + N < L" unfolding u by simp
  with assms False show ?thesis unfolding u by (auto simp: mod_wrap mod_wrap2)
qed

lemma circ_used_read:
  fixes h t K L :: nat
  assumes "h < L" "t < L" "K \<le> (h + L - t) mod L"
  shows "(h + L - (t + K) mod L) mod L = (h + L - t) mod L - K"
proof (cases "t \<le> h")
  case True
  with assms have u: "(h + L - t) mod L = h - t" by (simp add: mod_wrap2)
  with assms True have "t + K < L" by simp
  with assms True show ?thesis unfolding u by (simp add: mod_wrap2)
next
  case False
  with assms have u: "(h + L - t) mod L = h + L - t" by (simp add: mod_wrap2)
  show ?thesis
  proof (cases "t + K < L")
    case True
    with assms False show ?thesis unfolding u by (simp add: mod_wrap2)
  next
    case wrap: False
    from assms False have "K < L" unfolding u by simp
    with assms wrap have m: "(t + K) mod L = t + K - L" by (simp add: mod_wrap)
    from assms False have le: "t + K - L \<le> h" unfolding u by simp
    have "(h + L - (t + K - L)) mod L = h - (t + K - L)"
      using assms(1) le by (simp add: mod_wrap2)
    with assms False wrap show ?thesis unfolding u m by simp
  qed
qed

lemma used_after_write:
  assumes "rb_inv b" "n < len b" "\<not> rb_getfree_m b < n"
  shows "unat (rb_getused_m (snd (ringbuf_write b data n))) =
    (if unat (rb_getused_m b) + unat n < unat (len b) then unat (rb_getused_m b) + unat n else 0)"
proof -
  let ?b' = "snd (ringbuf_write b data n)"
  have inv': "rb_inv ?b'" using assms(1) by (rule rb_inv_write)
  have hn: "unat (head b) < unat (len b)" and tn: "unat (tail b) < unat (len b)"
    using assms(1) by (simp_all add: rb_inv_idx)
  have nn: "unat n < unat (len b)" using assms(2) by (simp add: word_less_nat_alt)
  have "unat n \<le> unat (rb_getfree_m b)" using assms(3) by (simp add: word_less_nat_alt)
  then have fr: "unat n \<le> unat (len b) - (unat (head b) + unat (len b) - unat (tail b)) mod unat (len b)"
    by (simp add: unat_free [OF assms(1)] unat_used [OF assms(1)])
  show ?thesis
    unfolding unat_used [OF inv'] unat_used [OF assms(1)] write_frame [OF assms] write_head [OF assms]
    using hn tn nn fr by (rule circ_used_write)
qed

lemma used_after_read:
  assumes "rb_inv b" "n < len b"
  shows "unat (rb_getused_m (snd (snd (ringbuf_read b rb n)))) =
    unat (rb_getused_m b) - min (unat n) (unat (rb_getused_m b))"
proof -
  let ?b' = "snd (snd (ringbuf_read b rb n))"
  have inv': "rb_inv ?b'" using assms(1) by (rule rb_inv_read)
  have hn: "unat (head b) < unat (len b)" and tn: "unat (tail b) < unat (len b)"
    using assms(1) by (simp_all add: rb_inv_idx)
  have k: "min (unat n) (unat (rb_getused_m b)) \<le> (unat (head b) + unat (len b) - unat (tail b)) mod unat (len b)"
    by (simp add: unat_used [OF assms(1)])
  show ?thesis
    unfolding unat_used [OF inv'] read_frame [OF assms] read_tail [OF assms]
    using circ_used_read [OF hn tn k] by (simp add: unat_used [OF assms(1)])
qed

lemma circ_tail_plus_used:
  fixes h t L :: nat
  assumes "h < L" "t < L"
  shows "(t + (h + L - t) mod L) mod L = h"
  using assms by (cases "t \<le> h") (simp_all add: mod_wrap2 mod_wrap)

lemma circ_head_minus_used:
  fixes h t L :: nat
  assumes "h < L" "t < L"
  shows "(h + (L - (h + L - t) mod L)) mod L = t"
  using assms by (cases "t \<le> h") (auto simp: mod_wrap2 mod_wrap le_mod_geq)

lemma circ_new_cell:
  fixes h t L j :: nat
  assumes "h < L" "t < L"
  shows "(t + ((h + L - t) mod L + j)) mod L = (h + j) mod L"
proof -
  have "(t + ((h + L - t) mod L + j)) mod L = ((t + (h + L - t) mod L) mod L + j) mod L"
    by (simp add: add.assoc [symmetric] mod_add_left_eq)
  then show ?thesis by (simp add: circ_tail_plus_used [OF assms])
qed

lemma circ_old_cell:
  fixes h t L i :: nat
  assumes "h < L" "t < L"
  shows "(h + (L - (h + L - t) mod L + i)) mod L = (t + i) mod L"
proof -
  have "(h + (L - (h + L - t) mod L + i)) mod L = ((h + (L - (h + L - t) mod L)) mod L + i) mod L"
    by (simp add: add.assoc [symmetric] mod_add_left_eq)
  then show ?thesis by (simp add: circ_head_minus_used [OF assms])
qed

section \<open>The buffer as a queue\<close>

lemma length_rb_contents [simp]: "length (rb_contents b) = unat (rb_getused_m b)"
  by (simp add: rb_contents_def)

lemma rb_contents_nth:
  "i < unat (rb_getused_m b) \<Longrightarrow>
   rb_contents b ! i = buffer b ! ((unat (tail b) + i) mod unat (len b))"
  by (simp add: rb_contents_def)

lemma strict_fits_free:
  assumes "rb_inv b" "unat (rb_getused_m b) + unat n < unat (len b)"
  shows "\<not> rb_getfree_m b < n"
  using assms by (simp add: word_less_nat_alt unat_free)

lemma contents_write_nth:
  assumes "rb_inv b" "n < len b" "unat (rb_getused_m b) + unat n < unat (len b)"
  shows "rb_contents (snd (ringbuf_write b data n)) =
    rb_contents b @ map (\<lambda>j. data ! j) [0..<unat n]"
proof (rule nth_equalityI)
  let ?b' = "snd (ringbuf_write b data n)"
  let ?U = "unat (rb_getused_m b)" and ?L = "unat (len b)"
  let ?h = "unat (head b)" and ?t = "unat (tail b)"
  have f: "\<not> rb_getfree_m b < n" using assms(1,3) by (rule strict_fits_free)
  have U': "unat (rb_getused_m ?b') = ?U + unat n"
    using assms(3) by (simp add: used_after_write [OF assms(1,2) f])
  show len: "length (rb_contents ?b') = length (rb_contents b @ map (\<lambda>j. data ! j) [0..<unat n])"
    by (simp add: U')
  have hn: "?h < ?L" and tn: "?t < ?L"
    using assms(1) by (simp_all add: rb_inv_idx)
  have Ueq: "?U = (?h + ?L - ?t) mod ?L" using assms(1) by (rule unat_used)
  fix i assume "i < length (rb_contents ?b')"
  then have i: "i < ?U + unat n" by (simp add: U')
  have lhs: "rb_contents ?b' ! i = buffer ?b' ! ((?t + i) mod ?L)"
    using i by (simp add: rb_contents_nth U' write_frame [OF assms(1,2) f])
  show "rb_contents ?b' ! i = (rb_contents b @ map (\<lambda>j. data ! j) [0..<unat n]) ! i"
  proof (cases "i < ?U")
    case True
    let ?j = "?L - ?U + i"
    have j: "?j < ?L" "\<not> ?j < unat n" using True assms(3) by simp_all
    have cell: "(?h + ?j) mod ?L = (?t + i) mod ?L"
      unfolding Ueq using hn tn by (rule circ_old_cell)
    have "buffer ?b' ! ((?h + ?j) mod ?L) = buffer b ! ((?h + ?j) mod ?L)"
      using j(2) by (simp only: write_buffer_nth [OF assms(1,2) f j(1)] if_False)
    then show ?thesis
      using True by (simp add: lhs cell [symmetric] nth_append rb_contents_nth)
  next
    case False
    let ?j = "i - ?U"
    have j: "?j < ?L" "?j < unat n" using False i assms(3) by simp_all
    have "(?t + ((?h + ?L - ?t) mod ?L + ?j)) mod ?L = (?h + ?j) mod ?L"
      using hn tn by (rule circ_new_cell)
    then have cell: "(?t + i) mod ?L = (?h + ?j) mod ?L"
      using False by (simp add: Ueq [symmetric])
    have "buffer ?b' ! ((?h + ?j) mod ?L) = data ! ?j"
      using j(2) by (simp only: write_buffer_nth [OF assms(1,2) f j(1)] if_True)
    then show ?thesis
      using False j(2) by (simp add: lhs cell nth_append)
  qed
qed

lemma take_as_map_nth: "n \<le> length xs \<Longrightarrow> take n xs = map (\<lambda>j. xs ! j) [0..<n]"
  by (rule nth_equalityI) simp_all

lemma contents_write:
  assumes "rb_inv b" "n < len b" "unat (rb_getused_m b) + unat n < unat (len b)"
    "unat n \<le> length data"
  shows "rb_contents (snd (ringbuf_write b data n)) = rb_contents b @ take (unat n) data"
  using contents_write_nth [OF assms(1-3), of data] assms(4) by (simp add: take_as_map_nth)

lemma contents_read:
  assumes "rb_inv b" "n < len b" "k = min (unat n) (unat (rb_getused_m b))"
  shows "rb_contents (snd (snd (ringbuf_read b rb n))) = drop k (rb_contents b)"
proof (rule nth_equalityI)
  let ?b' = "snd (snd (ringbuf_read b rb n))"
  let ?U = "unat (rb_getused_m b)" and ?L = "unat (len b)" and ?t = "unat (tail b)"
  have U': "unat (rb_getused_m ?b') = ?U - k"
    by (simp add: used_after_read [OF assms(1,2)] assms(3))
  show "length (rb_contents ?b') = length (drop k (rb_contents b))"
    by (simp add: U')
  fix i assume "i < length (rb_contents ?b')"
  then have i: "i < ?U - k" by (simp add: U')
  have "rb_contents ?b' ! i = buffer b ! (((?t + k) mod ?L + i) mod ?L)"
    using i by (simp add: rb_contents_nth U' read_frame [OF assms(1,2)] read_tail [OF assms(1,2)]
        assms(3))
  also have "((?t + k) mod ?L + i) mod ?L = (?t + (k + i)) mod ?L"
    by (simp add: mod_add_left_eq add.assoc)
  also have "buffer b ! ((?t + (k + i)) mod ?L) = drop k (rb_contents b) ! i"
    using i by (simp add: rb_contents_nth)
  finally show "rb_contents ?b' ! i = drop k (rb_contents b) ! i" .
qed

lemma out_read:
  assumes "rb_inv b" "n < len b" "k = min (unat n) (unat (rb_getused_m b))" "k \<le> length rb"
  shows "take k (fst (snd (ringbuf_read b rb n))) = take k (rb_contents b)"
    and "drop k (fst (snd (ringbuf_read b rb n))) = drop k rb"
proof -
  let ?out = "fst (snd (ringbuf_read b rb n))"
  have l: "length ?out = length rb" using assms(1,2) by (rule read_frame)
  have ku: "k \<le> unat (rb_getused_m b)" by (simp add: assms(3))
  show "take k ?out = take k (rb_contents b)"
  proof (rule nth_equalityI)
    show "length (take k ?out) = length (take k (rb_contents b))"
      using assms(4) ku by (simp add: l)
    fix i assume "i < length (take k ?out)"
    then have i: "i < k" by simp
    then have "i < length rb" using assms(4) by simp
    then show "take k ?out ! i = take k (rb_contents b) ! i"
      using i ku by (simp add: read_out_nth [OF assms(1,2)] assms(3) [symmetric] rb_contents_nth)
  qed
  show "drop k ?out = drop k rb"
  proof (rule nth_equalityI)
    show "length (drop k ?out) = length (drop k rb)" by (simp add: l)
    fix i assume "i < length (drop k ?out)"
    then have i: "k + i < length rb" by (simp add: l)
    then show "drop k ?out ! i = drop k rb ! i"
      using assms(4) by (simp add: l read_out_nth [OF assms(1,2)] assms(3) [symmetric])
  qed
qed

lemma tail_after_full_read:
  assumes "rb_inv b" "n < len b" "rb_getused_m b \<le> n"
  shows "tail (snd (snd (ringbuf_read b rb n))) = head b"
proof -
  have hn: "unat (head b) < unat (len b)" and tn: "unat (tail b) < unat (len b)"
    using assms(1) by (simp_all add: rb_inv_idx)
  have m: "min (unat n) (unat (rb_getused_m b)) = unat (rb_getused_m b)"
    using assms(3) by (simp add: word_le_nat_alt)
  have "unat (tail (snd (snd (ringbuf_read b rb n)))) =
      (unat (tail b) + unat (rb_getused_m b)) mod unat (len b)"
    by (simp only: read_tail [OF assms(1,2)] m)
  also have "\<dots> = unat (head b)"
    unfolding unat_used [OF assms(1)] using hn tn by (rule circ_tail_plus_used)
  finally show ?thesis by (simp only: word_unat_eq_iff)
qed

section \<open>First in, first out, within the usable capacity\<close>

lemma rb_run_snd_write:
  "snd (rb_run (Op_write data n # ops) b) = snd (rb_run ops (snd (ringbuf_write b data n)))"
  by (simp add: split_beta)

lemma rb_run_snd_read:
  "snd (rb_run (Op_read dst n # ops) b) = snd (rb_run ops (snd (snd (ringbuf_read b dst n))))"
  by (simp add: split_beta)

lemma fifo_within_capacity:
  "rb_inv b \<Longrightarrow> within_capacity ops b \<Longrightarrow>
   rb_contents b @ written ops = read_out ops b @ rb_contents (snd (rb_run ops b))"
proof (induction ops arbitrary: b)
  case Nil
  then show ?case by simp
next
  case (Cons op ops)
  show ?case
  proof (cases op)
    case (Op_write data n)
    let ?b' = "snd (ringbuf_write b data n)"
    from Cons.prems Op_write have n: "n < len b" and d: "unat n \<le> length data"
      and u: "unat (rb_getused_m b) + unat n < unat (len b)" and w: "within_capacity ops ?b'"
      by simp_all
    have inv': "rb_inv ?b'" using Cons.prems(1) by (rule rb_inv_write)
    have c: "rb_contents ?b' = rb_contents b @ take (unat n) data"
      using Cons.prems(1) n u d by (rule contents_write)
    have "rb_contents ?b' @ written ops = read_out ops ?b' @ rb_contents (snd (rb_run ops ?b'))"
      using inv' w by (rule Cons.IH)
    then show ?thesis
      unfolding Op_write rb_run_snd_write by (simp add: c)
  next
    case (Op_read dst n)
    let ?b' = "snd (snd (ringbuf_read b dst n))"
    let ?k = "min (unat n) (unat (rb_getused_m b))"
    from Cons.prems Op_read have n: "n < len b" and d: "unat n \<le> length dst"
      and w: "within_capacity ops ?b'"
      by simp_all
    have inv': "rb_inv ?b'" using Cons.prems(1) by (rule rb_inv_read)
    have k: "?k \<le> length dst" using d by simp
    have c: "rb_contents ?b' = drop ?k (rb_contents b)"
      using Cons.prems(1) n refl by (rule contents_read)
    have o: "take ?k (fst (snd (ringbuf_read b dst n))) = take ?k (rb_contents b)"
      using Cons.prems(1) n refl k by (rule out_read)
    have "rb_contents ?b' @ written ops = read_out ops ?b' @ rb_contents (snd (rb_run ops ?b'))"
      using inv' w by (rule Cons.IH)
    then have "take ?k (rb_contents b) @ drop ?k (rb_contents b) @ written ops =
      take ?k (rb_contents b) @ read_out ops ?b' @ rb_contents (snd (rb_run ops ?b'))"
      by (simp add: c)
    then have "rb_contents b @ written ops =
      take ?k (rb_contents b) @ read_out ops ?b' @ rb_contents (snd (rb_run ops ?b'))"
      by (simp only: append_assoc [symmetric] append_take_drop_id)
    then show ?thesis
      unfolding Op_read rb_run_snd_read by (simp add: split_beta o)
  qed
qed

section \<open>Buffers that no caller can tell apart\<close>

lemma rb_contents_overflow [simp]: "rb_contents (b\<lparr>overflow := v\<rparr>) = rb_contents b"
  by (simp add: rb_contents_def rb_getused_m_def)

lemma rb_inv_overflow [simp]: "rb_inv (b\<lparr>overflow := v\<rparr>) = rb_inv b"
  by (simp add: rb_inv_def)

lemma same_view_used: "same_view b1 b2 \<Longrightarrow> rb_getused_m b1 = rb_getused_m b2"
  by (simp add: same_view_def rb_getused_m_def)

lemma same_view_free: "same_view b1 b2 \<Longrightarrow> rb_getfree_m b1 = rb_getfree_m b2"
  by (simp add: same_view_def rb_getfree_m_def)

lemma rb_contents_empty: "unat (rb_getused_m b) = 0 \<Longrightarrow> rb_contents b = []"
  by (simp add: rb_contents_def)

lemma same_view_write:
  assumes "same_view b1 b2"
  shows "fst (ringbuf_write b1 data n) = fst (ringbuf_write b2 data n) \<and>
    same_view (snd (ringbuf_write b1 data n)) (snd (ringbuf_write b2 data n))"
proof -
  from assms have i1: "rb_inv b1" and i2: "rb_inv b2" and l: "len b1 = len b2"
    and c: "rb_contents b1 = rb_contents b2"
    by (simp_all add: same_view_def)
  have u: "rb_getused_m b1 = rb_getused_m b2" using assms by (rule same_view_used)
  have f: "rb_getfree_m b1 = rb_getfree_m b2" using assms by (rule same_view_free)
  show ?thesis
  proof (cases "len b1 \<le> n")
    case True
    then show ?thesis using assms l by (simp add: ringbuf_write_def)
  next
    case False
    then have n1: "n < len b1" and n2: "n < len b2" using l by simp_all
    show ?thesis
    proof (cases "rb_getfree_m b1 < n")
      case True
      then show ?thesis
        using assms f n1 n2 by (simp add: ringbuf_write_def same_view_def linorder_not_le [symmetric])
    next
      case nf: False
      then have f1: "\<not> rb_getfree_m b1 < n" and f2: "\<not> rb_getfree_m b2 < n" using f by simp_all
      let ?b1 = "snd (ringbuf_write b1 data n)" and ?b2 = "snd (ringbuf_write b2 data n)"
      have "unat (head ?b1) = unat (head ?b2)"
        using assms by (simp add: write_head [OF i1 n1 f1] write_head [OF i2 n2 f2] same_view_def)
      then have h: "head ?b1 = head ?b2" by (simp only: word_unat_eq_iff)
      have cs: "rb_contents ?b1 = rb_contents ?b2"
      proof (cases "unat (rb_getused_m b1) + unat n < unat (len b1)")
        case True
        then have "unat (rb_getused_m b2) + unat n < unat (len b2)" using u l by simp
        then show ?thesis
          using True c by (simp add: contents_write_nth [OF i1 n1] contents_write_nth [OF i2 n2])
      next
        case False
        then have "\<not> unat (rb_getused_m b2) + unat n < unat (len b2)" using u l by simp
        then have "unat (rb_getused_m ?b1) = 0" and "unat (rb_getused_m ?b2) = 0"
          using False by (simp_all add: used_after_write [OF i1 n1 f1] used_after_write [OF i2 n2 f2])
        then show ?thesis by (simp add: rb_contents_empty)
      qed
      have "rb_inv ?b1" and "rb_inv ?b2" using i1 i2 by (simp_all add: rb_inv_write)
      then show ?thesis
        using assms h cs
        by (simp add: same_view_def write_frame [OF i1 n1 f1] write_frame [OF i2 n2 f2])
    qed
  qed
qed

lemma same_view_read:
  assumes "same_view b1 b2"
  shows "fst (ringbuf_read b1 dst n) = fst (ringbuf_read b2 dst n) \<and>
    fst (snd (ringbuf_read b1 dst n)) = fst (snd (ringbuf_read b2 dst n)) \<and>
    same_view (snd (snd (ringbuf_read b1 dst n))) (snd (snd (ringbuf_read b2 dst n)))"
proof -
  from assms have i1: "rb_inv b1" and i2: "rb_inv b2" and l: "len b1 = len b2"
    and t: "tail b1 = tail b2" and c: "rb_contents b1 = rb_contents b2"
    by (simp_all add: same_view_def)
  have u: "rb_getused_m b1 = rb_getused_m b2" using assms by (rule same_view_used)
  show ?thesis
  proof (cases "len b1 \<le> n")
    case True
    then show ?thesis using assms l by (simp add: ringbuf_read_def)
  next
    case False
    then have n1: "n < len b1" and n2: "n < len b2" using l by simp_all
    let ?r1 = "ringbuf_read b1 dst n" and ?r2 = "ringbuf_read b2 dst n"
    let ?k = "min (unat n) (unat (rb_getused_m b1))"
    have out: "fst (snd ?r1) = fst (snd ?r2)"
    proof (rule nth_equalityI)
      show "length (fst (snd ?r1)) = length (fst (snd ?r2))"
        by (simp add: read_frame [OF i1 n1] read_frame [OF i2 n2])
      fix i assume "i < length (fst (snd ?r1))"
      then have i: "i < length dst" by (simp add: read_frame [OF i1 n1])
      have e1: "fst (snd ?r1) ! i =
          (if i < ?k then buffer b1 ! ((unat (tail b1) + i) mod unat (len b1)) else dst ! i)"
        using i1 n1 i by (rule read_out_nth)
      have e2: "fst (snd ?r2) ! i =
          (if i < ?k then buffer b2 ! ((unat (tail b2) + i) mod unat (len b2)) else dst ! i)"
        unfolding u using i2 n2 i by (rule read_out_nth)
      show "fst (snd ?r1) ! i = fst (snd ?r2) ! i"
      proof (cases "i < ?k")
        case True
        then have iu: "i < unat (rb_getused_m b1)" by simp
        have "buffer b1 ! ((unat (tail b1) + i) mod unat (len b1)) = rb_contents b1 ! i"
          using iu by (simp add: rb_contents_nth)
        moreover have "buffer b2 ! ((unat (tail b2) + i) mod unat (len b2)) = rb_contents b2 ! i"
          using iu u by (simp add: rb_contents_nth)
        ultimately show ?thesis
          using True c by (simp only: e1 e2 if_True)
      next
        case False
        then show ?thesis
          by (simp only: e1 e2 if_False)
      qed
    qed
    have "unat (tail (snd (snd ?r1))) = unat (tail (snd (snd ?r2)))"
      using t l u by (simp add: read_tail [OF i1 n1] read_tail [OF i2 n2])
    then have tl: "tail (snd (snd ?r1)) = tail (snd (snd ?r2))" by (simp only: word_unat_eq_iff)
    have cs: "rb_contents (snd (snd ?r1)) = rb_contents (snd (snd ?r2))"
      using c u by (simp add: contents_read [OF i1 n1 refl] contents_read [OF i2 n2 refl])
    have "rb_inv (snd (snd ?r1))" and "rb_inv (snd (snd ?r2))"
      using i1 i2 by (simp_all add: rb_inv_read)
    then show ?thesis
      using assms out tl cs
      by (simp add: same_view_def read_frame [OF i1 n1] read_frame [OF i2 n2])
  qed
qed

lemma same_view_run:
  "same_view b1 b2 \<Longrightarrow> fst (rb_run ops b1) = fst (rb_run ops b2)"
proof (induction ops arbitrary: b1 b2)
  case Nil
  then show ?case by simp
next
  case (Cons op ops)
  show ?case
  proof (cases op)
    case (Op_write data n)
    have "fst (rb_run ops (snd (ringbuf_write b1 data n))) =
      fst (rb_run ops (snd (ringbuf_write b2 data n)))"
      using same_view_write [OF Cons.prems, of data n] by (intro Cons.IH) simp
    then show ?thesis
      using same_view_write [OF Cons.prems, of data n] by (simp add: Op_write split_beta)
  next
    case (Op_read dst n)
    have "fst (rb_run ops (snd (snd (ringbuf_read b1 dst n)))) =
      fst (rb_run ops (snd (snd (ringbuf_read b2 dst n))))"
      using same_view_read [OF Cons.prems, of dst n] by (intro Cons.IH) simp
    then show ?thesis
      using same_view_read [OF Cons.prems, of dst n] by (simp add: Op_read split_beta)
  qed
qed

section \<open>A write that fills the buffer exactly\<close>

lemma exact_fill:
  assumes "rb_inv b" "head b \<noteq> tail b" "n = rb_getfree_m b"
  shows "n < len b" and "\<not> rb_getfree_m b < n"
    and "unat (rb_getused_m b) + unat n = unat (len b)"
    and "head (snd (ringbuf_write b data n)) = tail b"
proof -
  have hn: "unat (head b) < unat (len b)" and tn: "unat (tail b) < unat (len b)"
    using assms(1) by (simp_all add: rb_inv_idx)
  have ne: "unat (head b) \<noteq> unat (tail b)" using assms(2) by (simp add: word_unat_eq_iff)
  have U: "unat (rb_getused_m b) = (unat (head b) + unat (len b) - unat (tail b)) mod unat (len b)"
    using assms(1) by (rule unat_used)
  have pos: "0 < unat (rb_getused_m b)"
    unfolding U using hn tn ne by (cases "unat (tail b) \<le> unat (head b)") (simp_all add: mod_wrap2)
  have lt: "unat (rb_getused_m b) < unat (len b)" using assms(1) by (rule used_lt_len)
  have N: "unat n = unat (len b) - unat (rb_getused_m b)"
    using assms(1,3) by (simp add: unat_free)
  show n: "n < len b" using pos lt by (simp add: word_less_nat_alt N)
  show f: "\<not> rb_getfree_m b < n" using assms(3) by simp
  show "unat (rb_getused_m b) + unat n = unat (len b)" using lt by (simp add: N)
  have "unat (head (snd (ringbuf_write b data n))) =
      (unat (head b) + (unat (len b) - (unat (head b) + unat (len b) - unat (tail b)) mod unat (len b))) mod unat (len b)"
    by (simp only: write_head [OF assms(1) n f] N U)
  also have "\<dots> = unat (tail b)" using hn tn by (rule circ_head_minus_used)
  finally show "head (snd (ringbuf_write b data n)) = tail b" by (simp only: word_unat_eq_iff)
qed

section \<open>The overflow flag in the session\<close>

lemma write_overflow:
  "overflow (snd (ringbuf_write b data n)) =
     (if n < len b \<and> rb_getfree_m b < n then 1 else overflow b)"
  by (auto simp: ringbuf_write_def Let_def)

lemma write_code:
  "fst (ringbuf_write b data n) = (if len b \<le> n \<or> rb_getfree_m b < n then 1 else 0)"
  by (auto simp: ringbuf_write_def Let_def)

lemma read_overflow: "overflow (snd (snd (ringbuf_read b dst n))) = overflow (b :: RingBuffer)"
  by (simp add: ringbuf_read_def Let_def)

lemma sd_write_overflow:
  "sd_write fr n st = Some (r, st') \<Longrightarrow> overflow (sdbuf st') = overflow (sdbuf st)"
  by (auto simp: sd_write_def Let_def split_beta read_overflow split: if_splits)

lemma isr_button_sdbuf: "sdbuf (PORT1_ISR s1 now now' st) = sdbuf st"
  by (simp add: PORT1_ISR_def logger_enable_def logger_disable_def Let_def)

lemma isr_timer_overflow:
  "overflow (sdbuf (TIMER1_A0_ISR sb now st)) =
     (if file_open st \<noteq> 0 \<and> of_nat (length sb) < len (sdbuf st) \<and>
         rb_getfree_m (sdbuf st) < of_nat (length sb)
      then 1 else overflow (sdbuf st))"
  by (simp add: TIMER1_A0_ISR_def Let_def write_overflow)

lemma open_overflow:
  "sd_setup_open rs st = Some st' \<Longrightarrow>
   overflow (sdbuf st') = (if logger_running st \<noteq> 0 \<and> file_open st = 0 then 0 else overflow (sdbuf st))"
  by (auto simp: sd_setup_open_def split: if_splits list.splits option.splits)

lemma close_overflow:
  "sd_setup_close wr sr crs st = Some st' \<Longrightarrow> overflow (sdbuf st') = overflow (sdbuf st)"
  by (auto simp: sd_setup_close_def Let_def dest!: sd_write_overflow
      split: if_splits list.splits option.splits)

lemma drain_overflow:
  "sd_setup_drain wr st = Some st' \<Longrightarrow> overflow (sdbuf st') = overflow (sdbuf st)"
  by (auto simp: sd_setup_drain_def dest!: sd_write_overflow split: if_splits)

lemma status_sdbuf: "sd_setup_status now st = Some st' \<Longrightarrow> sdbuf st' = sdbuf st"
  by (auto simp: sd_setup_status_def update_lcd_def Let_def split: if_splits)

lemma step_sets_overflow:
  assumes "step a st = Some st'" "overflow (sdbuf st) = 0" "overflow (sdbuf st') \<noteq> 0"
  shows "write_lacks_space a st"
proof (cases a)
  case (Timer_tick sb now)
  then show ?thesis
    using assms by (auto simp: isr_timer_overflow write_code split: if_splits)
next
  case (Button_S1 s1 now now')
  then show ?thesis using assms by (auto simp: isr_button_sdbuf)
next
  case (Loop_open rs)
  then show ?thesis using assms by (auto dest!: open_overflow split: if_splits)
next
  case (Loop_close wr sr crs)
  then show ?thesis using assms by (auto dest!: close_overflow)
next
  case (Loop_drain wr)
  then show ?thesis using assms by (auto dest!: drain_overflow)
next
  case (Loop_status now)
  then show ?thesis using assms by (auto dest!: status_sdbuf)
qed

lemma step_clears_overflow:
  assumes "step a st = Some st'" "overflow (sdbuf st) \<noteq> 0" "overflow (sdbuf st') = 0"
  shows "opens_session a st"
proof (cases a)
  case (Timer_tick sb now)
  then show ?thesis
    using assms by (auto simp: isr_timer_overflow split: if_splits)
next
  case (Button_S1 s1 now now')
  then show ?thesis using assms by (auto simp: isr_button_sdbuf)
next
  case (Loop_open rs)
  then show ?thesis using assms by (auto dest!: open_overflow split: if_splits)
next
  case (Loop_close wr sr crs)
  then show ?thesis using assms by (auto dest!: close_overflow)
next
  case (Loop_drain wr)
  then show ?thesis using assms by (auto dest!: drain_overflow)
next
  case (Loop_status now)
  then show ?thesis using assms by (auto dest!: status_sdbuf)
qed

lemma overflow_sticky:
  "exec as st = Some st' \<Longrightarrow> overflow (sdbuf st) \<noteq> 0 \<Longrightarrow> no_session_opened as st \<Longrightarrow>
   overflow (sdbuf st') \<noteq> 0"
proof (induction as arbitrary: st)
  case Nil
  then show ?case by simp
next
  case (Cons a as)
  from Cons.prems(1) obtain st1 where s: "step a st = Some st1" and e: "exec as st1 = Some st'"
    by (auto split: option.splits)
  from Cons.prems(3) s have no: "\<not> opens_session a st" and rest: "no_session_opened as st1"
    by simp_all
  have "overflow (sdbuf st1) \<noteq> 0"
    using step_clears_overflow [OF s Cons.prems(2)] no by blast
  with e rest show ?case by (intro Cons.IH)
qed

section \<open>The invariant in every reachable state\<close>

lemma logger_init_inv:
  "k < 16 \<Longrightarrow> rb_inv (sdbuf (logger_init (2 ^ k)))"
  by (simp add: logger_init_def rb_inv_init unat_pow2_16)

lemma sd_write_inv:
  "sd_write fr n st = Some (r, st') \<Longrightarrow> rb_inv (sdbuf st) \<Longrightarrow> rb_inv (sdbuf st')"
  by (auto simp: sd_write_def Let_def split_beta rb_inv_read split: if_splits)

lemma step_inv:
  assumes "step a st = Some st'" "rb_inv (sdbuf st)"
  shows "rb_inv (sdbuf st')"
proof (cases a)
  case (Timer_tick sb now)
  then show ?thesis
    using assms by (auto simp: TIMER1_A0_ISR_def Let_def rb_inv_write)
next
  case (Button_S1 s1 now now')
  then show ?thesis using assms by (auto simp: isr_button_sdbuf)
next
  case (Loop_open rs)
  then show ?thesis
    using assms by (auto simp: sd_setup_open_def split: if_splits list.splits option.splits)
next
  case (Loop_close wr sr crs)
  then show ?thesis
    using assms
    by (auto simp: sd_setup_close_def Let_def dest!: sd_write_inv
        split: if_splits list.splits option.splits)
next
  case (Loop_drain wr)
  then show ?thesis
    using assms by (auto simp: sd_setup_drain_def dest!: sd_write_inv split: if_splits)
next
  case (Loop_status now)
  then show ?thesis using assms by (auto dest!: status_sdbuf)
qed

lemma exec_inv:
  "exec as st = Some st' \<Longrightarrow> rb_inv (sdbuf st) \<Longrightarrow> rb_inv (sdbuf st')"
proof (induction as arbitrary: st)
  case Nil
  then show ?case by simp
next
  case (Cons a as)
  from Cons.prems(1) obtain st1 where s: "step a st = Some st1" and e: "exec as st1 = Some st'"
    by (auto split: option.splits)
  from s Cons.prems(2) have "rb_inv (sdbuf st1)" by (rule step_inv)
  with e show ?case by (rule Cons.IH)
qed

lemma reachable_inv:
  "k < 16 \<Longrightarrow> exec as (logger_init (2 ^ k)) = Some st \<Longrightarrow> rb_inv (sdbuf st)"
  using exec_inv logger_init_inv by blast

section \<open>Retrying and the final drain\<close>


lemma open_retry_hangs: "FR_OK \<notin> set (r # rs) \<Longrightarrow> open_retry r rs tr = None"
  by (induction rs arbitrary: r tr) auto

lemma close_retry_returns:
  "FR_OK \<in> set (c # cs) \<Longrightarrow>
   \<exists>tr'. close_retry c cs tr = Some (tr @ tr') \<and>
     filter is_storage_call tr' =
       replicate (length (takeWhile (\<lambda>x. x \<noteq> FR_OK) (c # cs))) Call_f_close"
proof (induction cs arbitrary: c tr)
  case Nil
  then show ?case by simp
next
  case (Cons c' cs)
  show ?case
  proof (cases "c = FR_OK")
    case True
    then show ?thesis by simp
  next
    case False
    with Cons.prems have "FR_OK \<in> set (c' # cs)" by auto
    from Cons.IH [OF this, of "tr @ [Lcd_debug_code ''close fail'' c, Call_f_close, Delay_ms 100]"]
    obtain tr' where
      "close_retry c' cs (tr @ [Lcd_debug_code ''close fail'' c, Call_f_close, Delay_ms 100]) =
         Some ((tr @ [Lcd_debug_code ''close fail'' c, Call_f_close, Delay_ms 100]) @ tr')"
      and "filter is_storage_call tr' =
         replicate (length (takeWhile (\<lambda>x. x \<noteq> FR_OK) (c' # cs))) Call_f_close"
      by blast
    then show ?thesis
      using False
      by (intro exI [of _ "[Lcd_debug_code ''close fail'' c, Call_f_close, Delay_ms 100] @ tr'"]) simp
  qed
qed

lemma close_retry_hangs: "FR_OK \<notin> set (c # cs) \<Longrightarrow> close_retry c cs tr = None"
  by (induction cs arbitrary: c tr) auto

lemma used_zero: "tail b = head b \<Longrightarrow> rb_getused_m b = 0"
  by (simp add: rb_getused_m_def)

lemma sd_write_all:
  assumes "rb_inv (sdbuf st)" "unat (rb_getused_m (sdbuf st)) \<le> length (writebuf st)"
  shows "\<exists>st1. sd_write wr (rb_getused_m (sdbuf st)) st = Some (wr, st1) \<and>
    trace st1 = trace st @ Call_f_write (rb_contents (sdbuf st)) #
      (if wr \<noteq> 0 then [Lcd_debug_code ''write fail'' wr] else []) \<and>
    rb_getused_m (sdbuf st1) = 0 \<and> tail (sdbuf st1) = head (sdbuf st) \<and>
    head (sdbuf st1) = head (sdbuf st) \<and>
    file_open st1 = file_open st \<and> logger_running st1 = logger_running st"
proof -
  let ?b = "sdbuf st" and ?n = "rb_getused_m (sdbuf st)"
  let ?r = "ringbuf_read ?b (writebuf st) ?n"
  have n: "?n < len ?b"
    using used_lt_len [OF assms(1)] by (simp add: word_less_nat_alt)
  have k: "unat ?n = min (unat ?n) (unat ?n)" by simp
  have "take (unat ?n) (fst (snd ?r)) = take (unat ?n) (rb_contents ?b)"
    using assms(1) n k assms(2) by (rule out_read)
  then have c: "take (unat ?n) (fst (snd ?r)) = rb_contents ?b" by simp
  have t: "tail (snd (snd ?r)) = head ?b"
    using assms(1) n by (rule tail_after_full_read) simp
  have h: "head (snd (snd ?r)) = head ?b" using assms(1) n by (rule read_frame)
  have u: "rb_getused_m (snd (snd ?r)) = 0" by (rule used_zero) (simp only: t h)
  show ?thesis
    using assms(2) c t h u by (simp add: sd_write_def Let_def split_beta)
qed

lemma takeWhile_stops: "x \<in> set xs \<Longrightarrow> length (takeWhile (\<lambda>y. y \<noteq> x) xs) < length xs"
  by (induction xs) auto

section \<open>Timer ticks filling the buffer\<close>

lemma exec_append:
  "exec (as @ bs) st = (case exec as st of None \<Rightarrow> None | Some st' \<Rightarrow> exec bs st')"
  by (induction as arbitrary: st) (auto split: option.splits)

lemma tick_one:
  assumes "rb_inv (sdbuf st)" "file_open st \<noteq> 0"
    "unat (rb_getused_m (sdbuf st)) + length sb < unat (len (sdbuf st))"
  shows "rb_inv (sdbuf (TIMER1_A0_ISR sb now st))"
    and "unat (rb_getused_m (sdbuf (TIMER1_A0_ISR sb now st))) =
      unat (rb_getused_m (sdbuf st)) + length sb"
    and "len (sdbuf (TIMER1_A0_ISR sb now st)) = len (sdbuf st)"
    and "file_open (TIMER1_A0_ISR sb now st) = file_open st"
    and "logger_running (TIMER1_A0_ISR sb now st) = logger_running st"
    and "writebuf (TIMER1_A0_ISR sb now st) = writebuf st"
    and "time (TIMER1_A0_ISR sb now st) = time st"
proof -
  let ?n = "of_nat (length sb) :: uint16_t"
  let ?b = "sdbuf st"
  have L: "unat (len ?b) \<le> 32768" using assms(1) by (simp add: rb_inv_len)
  have "length sb < 2 ^ LENGTH(16)" using assms(3) L by simp
  then have un: "unat ?n = length sb" by (simp add: unat_of_nat)
  have n: "?n < len ?b" using assms(3) by (simp add: word_less_nat_alt un)
  have u: "unat (rb_getused_m ?b) + unat ?n < unat (len ?b)" using assms(3) by (simp only: un)
  have f: "\<not> rb_getfree_m ?b < ?n" using assms(1) u by (rule strict_fits_free)
  have sb: "sdbuf (TIMER1_A0_ISR sb now st) = snd (ringbuf_write ?b sb ?n)"
    using assms(2) by (simp add: TIMER1_A0_ISR_def Let_def)
  show "rb_inv (sdbuf (TIMER1_A0_ISR sb now st))"
    unfolding sb using assms(1) by (rule rb_inv_write)
  show "unat (rb_getused_m (sdbuf (TIMER1_A0_ISR sb now st))) =
      unat (rb_getused_m (sdbuf st)) + length sb"
    unfolding sb using u by (simp add: used_after_write [OF assms(1) n f] un)
  show "len (sdbuf (TIMER1_A0_ISR sb now st)) = len (sdbuf st)"
    unfolding sb using assms(1) n f by (rule write_frame)
  show "file_open (TIMER1_A0_ISR sb now st) = file_open st"
    and "logger_running (TIMER1_A0_ISR sb now st) = logger_running st"
    and "writebuf (TIMER1_A0_ISR sb now st) = writebuf st"
    and "time (TIMER1_A0_ISR sb now st) = time st"
    by (simp_all add: TIMER1_A0_ISR_def Let_def)
qed

lemma ticks_fill:
  "rb_inv (sdbuf st) \<Longrightarrow> file_open st \<noteq> 0 \<Longrightarrow>
   unat (rb_getused_m (sdbuf st)) + k * length sb < unat (len (sdbuf st)) \<Longrightarrow>
   \<exists>st'. exec (replicate k (Timer_tick sb now)) st = Some st' \<and> rb_inv (sdbuf st') \<and>
     unat (rb_getused_m (sdbuf st')) = unat (rb_getused_m (sdbuf st)) + k * length sb \<and>
     len (sdbuf st') = len (sdbuf st) \<and> file_open st' = file_open st \<and>
     logger_running st' = logger_running st \<and> writebuf st' = writebuf st \<and> time st' = time st"
proof (induction k arbitrary: st)
  case 0
  then show ?case by simp
next
  case (Suc k)
  let ?s = "TIMER1_A0_ISR sb now st"
  from Suc.prems(3) have one: "unat (rb_getused_m (sdbuf st)) + length sb < unat (len (sdbuf st))"
    by simp
  note t = tick_one [OF Suc.prems(1,2) one, of now]
  have "unat (rb_getused_m (sdbuf ?s)) + k * length sb < unat (len (sdbuf ?s))"
    using Suc.prems(3) by (simp add: t(2,3))
  from Suc.IH [OF t(1) _ this] Suc.prems(2) t(4)
  obtain st' where "exec (replicate k (Timer_tick sb now)) ?s = Some st'" "rb_inv (sdbuf st')"
    "unat (rb_getused_m (sdbuf st')) = unat (rb_getused_m (sdbuf ?s)) + k * length sb"
    "len (sdbuf st') = len (sdbuf ?s)" "file_open st' = file_open ?s"
    "logger_running st' = logger_running ?s" "writebuf st' = writebuf ?s" "time st' = time ?s"
    by auto
  then show ?case by (simp add: t)
qed

section \<open>Sample runs\<close>


lemma overflow_sticky_run:
  "exec [Timer_tick [7] 2, Loop_drain 0, Button_S1 True 600 600, Loop_close 0 0 [FR_OK]]
     ((logger_init 8)\<lparr>sdbuf := \<lparr>buffer = [1, 2, 3, 4, 5, 0, 0, 0], head = 5, tail = 0, len = 8,
        mask_rb = 7, overflow = 1\<rparr>, logger_running := 1, file_open := 1\<rparr>) =
   Some \<lparr>sdbuf = \<lparr>buffer = [1, 2, 3, 4, 5, 7, 0, 0], head = 6, tail = 6, len = 8, mask_rb = 7,
            overflow = 1\<rparr>,
         writebuf = [1, 2, 3, 4, 5, 7] @ replicate 506 0, logger_running = 0, file_open = 0,
         time = 600, ta1_up = False,
         trace = [Lcd_row 1 ''Logging: OFF'', Adc_convert, Lcd_row 1 ''Logging: OFF'',
                  Call_f_write [1, 2, 3, 4, 5, 7], Call_f_sync, Call_f_close]\<rparr>"
  by code_simp

lemma overflow_sticky_run_no_open:
  "no_session_opened [Timer_tick [7] 2, Loop_drain 0, Button_S1 True 600 600, Loop_close 0 0 [FR_OK]]
     ((logger_init 8)\<lparr>sdbuf := \<lparr>buffer = [1, 2, 3, 4, 5, 0, 0, 0], head = 5, tail = 0, len = 8,
        mask_rb = 7, overflow = 1\<rparr>, logger_running := 1, file_open := 1\<rparr>)"
  by code_simp

lemma stop_with_520_buffered:
  "\<exists>st. exec (Button_S1 True 300 300 # Loop_open [FR_OK] #
             replicate 64 (Timer_tick [1, 2, 3, 4, 5, 6, 7, 8] 1) @
             [Loop_drain 0, Timer_tick [1, 2, 3, 4, 5, 6, 7, 8] 1, Button_S1 True 600 600])
          (logger_init 1024) = Some st \<and>
     rb_inv (sdbuf st) \<and> rb_getused_m (sdbuf st) = 520 \<and> logger_running st = 0 \<and>
     file_open st = 1 \<and> length (writebuf st) = 512"
proof -
  let ?sb = "[1, 2, 3, 4, 5, 6, 7, 8] :: byte list"
  define S0 where "S0 = (logger_init 1024)\<lparr>sdbuf := (sdbuf (logger_init 1024))\<lparr>overflow := 0\<rparr>,
      logger_running := 1, file_open := 1, time := 300, ta1_up := True,
      trace := [Lcd_row 1 ''Logging: OFF'', Lcd_row 1 ''Logging: ON'', Call_f_open, Lcd_debug []]\<rparr>"
  have e0: "exec [Button_S1 True 300 300, Loop_open [FR_OK]] (logger_init 1024) = Some S0"
    by (simp add: S0_def PORT1_ISR_def logger_enable_def sd_setup_open_def FR_OK_def logger_init_def)
  have "rb_inv (sdbuf (logger_init (2 ^ 10)))" by (rule logger_init_inv) simp
  then have i0: "rb_inv (sdbuf S0)" by (simp add: S0_def)
  have u0: "unat (rb_getused_m (sdbuf S0)) = 0"
    by (simp add: S0_def rb_getused_m_def logger_init_def rb_init_def)
  have l0: "len (sdbuf S0) = 1024" by (simp add: S0_def logger_init_def rb_init_def)
  have f0: "file_open S0 \<noteq> 0" and f0': "file_open S0 = 1" and r0: "logger_running S0 = 1"
    and w0: "length (writebuf S0) = 512" and t0: "time S0 = 300"
    by (simp_all add: S0_def logger_init_def)
  have "unat (rb_getused_m (sdbuf S0)) + 64 * length ?sb < unat (len (sdbuf S0))"
    by (simp only: u0 l0) simp
  from ticks_fill [OF i0 f0 this, of 1] obtain S1 where
    e1: "exec (replicate 64 (Timer_tick ?sb 1)) S0 = Some S1" and i1: "rb_inv (sdbuf S1)"
    and u1': "unat (rb_getused_m (sdbuf S1)) = unat (rb_getused_m (sdbuf S0)) + 64 * length ?sb"
    and l1': "len (sdbuf S1) = len (sdbuf S0)"
    and f1': "file_open S1 = file_open S0" and r1': "logger_running S1 = logger_running S0"
    and w1': "writebuf S1 = writebuf S0" and t1': "time S1 = time S0"
    by blast
  have u1: "unat (rb_getused_m (sdbuf S1)) = 512" by (simp add: u1' u0)
  have l1: "len (sdbuf S1) = 1024" by (simp add: l1' l0)
  have f1: "file_open S1 = 1" by (simp add: f1' f0')
  have r1: "logger_running S1 = 1" by (simp add: r1' r0)
  have w1: "length (writebuf S1) = 512" by (simp add: w1' w0)
  have t1: "time S1 = 300" by (simp add: t1' t0)
  have "\<not> 512 < rb_getused_m (sdbuf S1)" by (simp add: word_less_nat_alt u1)
  then have e2: "step (Loop_drain 0) S1 = Some S1" by (simp add: sd_setup_drain_def)
  let ?S2 = "TIMER1_A0_ISR ?sb 1 S1"
  have "file_open S1 \<noteq> 0" by (simp add: f1)
  moreover have "unat (rb_getused_m (sdbuf S1)) + length ?sb < unat (len (sdbuf S1))"
    by (simp add: u1 l1)
  ultimately have t2: "rb_inv (sdbuf ?S2)" "unat (rb_getused_m (sdbuf ?S2)) = 520"
    "file_open ?S2 = 1" "logger_running ?S2 = 1" "length (writebuf ?S2) = 512" "time ?S2 = 300"
    using tick_one [OF i1, of ?sb 1] by (simp_all add: u1 f1 r1 w1 t1)
  let ?S3 = "PORT1_ISR True 600 600 ?S2"
  have s3: "sdbuf ?S3 = sdbuf ?S2" by (rule isr_button_sdbuf)
  have p3: "logger_running ?S3 = 0" "file_open ?S3 = 1" "length (writebuf ?S3) = 512"
    using t2(3-6) by (simp_all add: PORT1_ISR_def logger_disable_def Let_def)
  have "unat (rb_getused_m (sdbuf ?S3)) = unat (520 :: uint16_t)" by (simp add: s3 t2(2))
  then have u3: "rb_getused_m (sdbuf ?S3) = 520" by (simp only: word_unat_eq_iff)
  have i3: "rb_inv (sdbuf ?S3)" by (simp add: s3 t2(1))
  have e3: "exec [Loop_drain 0, Timer_tick ?sb 1, Button_S1 True 600 600] S1 = Some ?S3"
    using e2 by simp
  have "exec ([Button_S1 True 300 300, Loop_open [FR_OK]] @ replicate 64 (Timer_tick ?sb 1) @
      [Loop_drain 0, Timer_tick ?sb 1, Button_S1 True 600 600]) (logger_init 1024) = Some ?S3"
    by (simp only: exec_append e0 e1 e3 option.case)
  then have "exec (Button_S1 True 300 300 # Loop_open [FR_OK] # replicate 64 (Timer_tick ?sb 1) @
      [Loop_drain 0, Timer_tick ?sb 1, Button_S1 True 600 600]) (logger_init 1024) = Some ?S3"
    by (simp only: append_Cons append_Nil)
  then show ?thesis using i3 u3 p3 by blast
qed

section \<open>First in, first out\<close>

text \<open>
  C1.  The claim is that reads return the written bytes in order whenever the calls
  respect the capacity and free-space tests.  On a buffer of length 4, a write of 1 byte
  and then of 3 bytes both pass the tests of \<open>ringbuf_write\<close> (\<open>n < len\<close> and
  \<open>n \<le> rb_getfree_m buf\<close>) and return 0; the read of 3 that follows returns 0 and copies
  nothing, and after one more byte is written the next read yields that byte, 5, where the
  oldest written byte is 1.  Of the written bytes 1, 2, 3, 4, 5 only 5 is ever read.
  (For calls that keep the occupancy below \<open>len\<close>, lemma \<open>fifo_within_capacity\<close> gives
  the property.)
\<close>

theorem fifo_broken_by_exact_fill:
  "rb_inv (rb_init [0, 0, 0, 0] 4) \<and>
   accepted [Op_write [1] 1, Op_write [2, 3, 4] 3, Op_read [0, 0, 0] 3, Op_write [5] 1, Op_read [0] 1]
     (rb_init [0, 0, 0, 0] 4) \<and>
   fst (rb_run [Op_write [1] 1, Op_write [2, 3, 4] 3, Op_read [0, 0, 0] 3, Op_write [5] 1, Op_read [0] 1]
     (rb_init [0, 0, 0, 0] 4)) = [(0, []), (0, []), (0, [0, 0, 0]), (0, []), (0, [5])] \<and>
   written [Op_write [1] 1, Op_write [2, 3, 4] 3, Op_read [0, 0, 0] 3, Op_write [5] 1, Op_read [0] 1] =
     [1, 2, 3, 4, 5] \<and>
   read_out [Op_write [1] 1, Op_write [2, 3, 4] 3, Op_read [0, 0, 0] 3, Op_write [5] 1, Op_read [0] 1]
     (rb_init [0, 0, 0, 0] 4) = [5]"
  by code_simp

section \<open>Occupancy and free space\<close>

text \<open>
  C2.  The claim is that \<open>rb_getused_m\<close> and \<open>rb_getfree_m\<close> add up to \<open>len - 1\<close>.  On the
  buffer as initialised with length 8 they add up to 8, and after a write of 3 bytes they
  are 3 and 5: the sum is \<open>len\<close>, one more than the usable capacity.  (Lemma
  \<open>used_plus_free\<close> gives the sum \<open>len\<close> for every buffer in the invariant, and
  lemma \<open>reachable_inv\<close> the invariant for every state the program reaches.)
\<close>

theorem occupancy_and_free_sum_to_len:
  "rb_getused_m (rb_init (replicate 8 0) 8) = 0 \<and>
   rb_getfree_m (rb_init (replicate 8 0) 8) = 8 \<and>
   rb_getused_m (rb_init (replicate 8 0) 8) + rb_getfree_m (rb_init (replicate 8 0) 8) \<noteq>
     len (rb_init (replicate 8 0) 8) - 1 \<and>
   fst (ringbuf_write (rb_init (replicate 8 0) 8) [1, 2, 3] 3) = 0 \<and>
   rb_getused_m (snd (ringbuf_write (rb_init (replicate 8 0) 8) [1, 2, 3] 3)) = 3 \<and>
   rb_getfree_m (snd (ringbuf_write (rb_init (replicate 8 0) 8) [1, 2, 3] 3)) = 5 \<and>
   rb_getused_m (snd (ringbuf_write (rb_init (replicate 8 0) 8) [1, 2, 3] 3)) +
     rb_getfree_m (snd (ringbuf_write (rb_init (replicate 8 0) 8) [1, 2, 3] 3)) \<noteq>
     len (snd (ringbuf_write (rb_init (replicate 8 0) 8) [1, 2, 3] 3)) - 1"
  by code_simp

section \<open>Rejected writes\<close>

text \<open>
  C3.  A write of \<open>n\<close> bytes with \<open>rb_getfree_m buf < n\<close> and \<open>n \<le> len - 1\<close> returns a
  nonzero code, sets the overflow flag and changes nothing else: head, tail and the
  stored bytes are as before.
\<close>

theorem ringbuf_write_no_space:
  "rb_getfree_m buf < n \<Longrightarrow> n < len buf \<Longrightarrow>
     fst (ringbuf_write buf data n) \<noteq> 0 \<and>
     snd (ringbuf_write buf data n) = buf\<lparr>overflow := 1\<rparr> \<and>
     overflow (snd (ringbuf_write buf data n)) = 1 \<and>
     head (snd (ringbuf_write buf data n)) = head buf \<and>
     tail (snd (ringbuf_write buf data n)) = tail buf \<and>
     buffer (snd (ringbuf_write buf data n)) = buffer buf"
  by (simp add: ringbuf_write_def linorder_not_le [symmetric])

theorem ringbuf_write_no_space_witness:
  "rb_getfree_m \<lparr>buffer = [1, 2, 3, 4, 5, 0, 0, 0], head = 5, tail = 0, len = 8, mask_rb = 7, overflow = 0\<rparr> < 4 \<and>
   (4 :: uint16_t) < len \<lparr>buffer = [1, 2, 3, 4, 5, 0, 0, 0], head = 5, tail = 0, len = 8, mask_rb = 7, overflow = 0\<rparr> \<and>
   ringbuf_write \<lparr>buffer = [1, 2, 3, 4, 5, 0, 0, 0], head = 5, tail = 0, len = 8, mask_rb = 7, overflow = 0\<rparr>
     [6, 7, 8, 9] 4 =
   (1, \<lparr>buffer = [1, 2, 3, 4, 5, 0, 0, 0], head = 5, tail = 0, len = 8, mask_rb = 7, overflow = 1\<rparr>)"
proof -
  let ?B = "\<lparr>buffer = [1, 2, 3, 4, 5, 0, 0, 0 :: byte], head = 5, tail = 0, len = 8, mask_rb = 7, overflow = 0\<rparr>"
  have h1: "rb_getfree_m ?B < 4" by (simp add: rb_getfree_m_def)
  have h2: "(4 :: uint16_t) < len ?B" by simp
  show ?thesis
    using ringbuf_write_no_space [OF h1 h2, of "[6, 7, 8, 9]"] h1
    by (simp add: prod_eq_iff ringbuf_write_def)
qed

text \<open>
  C4.  A write of \<open>n \<ge> len\<close> bytes returns 1 and leaves the whole buffer structure
  (head, tail, overflow flag and contents) as it was.
\<close>

theorem ringbuf_write_too_long:
  "len buf \<le> n \<Longrightarrow> ringbuf_write buf data n = (1, buf)"
  by (simp add: ringbuf_write_def)

theorem ringbuf_write_too_long_witness:
  "len (rb_init [0, 0, 0, 0] 4) \<le> 4 \<and>
   ringbuf_write (rb_init [0, 0, 0, 0] 4) [1, 2, 3, 4] 4 = (1, rb_init [0, 0, 0, 0] 4)"
  using ringbuf_write_too_long [of "rb_init [0, 0, 0, 0] 4" 4 "[1, 2, 3, 4]"]
  by (simp add: rb_init_def)

section \<open>Reading more than the buffer holds\<close>

text \<open>
  C5.  A read of \<open>n\<close> bytes with \<open>rb_getused_m buf < n < len\<close> returns 0, copies exactly the
  \<open>rb_getused_m buf\<close> buffered bytes, oldest first, to the front of the destination and
  leaves the rest of the destination alone, and advances \<open>tail\<close> by that many cells, which
  brings it to \<open>head\<close>.
\<close>

theorem ringbuf_read_past_occupancy:
  assumes "rb_inv buf" "rb_getused_m buf < n" "n < len buf" "unat n \<le> length read_buffer"
  shows "fst (ringbuf_read buf read_buffer n) = 0 \<and>
    take (unat (rb_getused_m buf)) (fst (snd (ringbuf_read buf read_buffer n))) = rb_contents buf \<and>
    drop (unat (rb_getused_m buf)) (fst (snd (ringbuf_read buf read_buffer n))) =
      drop (unat (rb_getused_m buf)) read_buffer \<and>
    length (fst (snd (ringbuf_read buf read_buffer n))) = length read_buffer \<and>
    unat (tail (snd (snd (ringbuf_read buf read_buffer n)))) =
      (unat (tail buf) + unat (rb_getused_m buf)) mod unat (len buf) \<and>
    tail (snd (snd (ringbuf_read buf read_buffer n))) = head buf \<and>
    head (snd (snd (ringbuf_read buf read_buffer n))) = head buf \<and>
    rb_getused_m (snd (snd (ringbuf_read buf read_buffer n))) = 0 \<and>
    overflow (snd (snd (ringbuf_read buf read_buffer n))) = overflow buf"
proof -
  let ?U = "unat (rb_getused_m buf)"
  have k: "?U = min (unat n) ?U"
    using assms(2) by (simp add: word_less_nat_alt)
  have fit: "?U \<le> length read_buffer"
    using assms(2,4) by (simp add: word_less_nat_alt)
  have le: "rb_getused_m buf \<le> n" using assms(2) by simp
  have t: "tail (snd (snd (ringbuf_read buf read_buffer n))) = head buf"
    using assms(1,3) le by (rule tail_after_full_read)
  have h: "head (snd (snd (ringbuf_read buf read_buffer n))) = head buf"
    using assms(1,3) by (rule read_frame)
  have "take ?U (fst (snd (ringbuf_read buf read_buffer n))) = take ?U (rb_contents buf)"
    using assms(1,3) k fit by (rule out_read)
  then have c: "take ?U (fst (snd (ringbuf_read buf read_buffer n))) = rb_contents buf"
    by simp
  have d: "drop ?U (fst (snd (ringbuf_read buf read_buffer n))) = drop ?U read_buffer"
    using assms(1,3) k fit by (rule out_read)
  have tl: "unat (tail (snd (snd (ringbuf_read buf read_buffer n)))) =
      (unat (tail buf) + ?U) mod unat (len buf)"
    using read_tail [OF assms(1,3), of read_buffer] k by simp
  have u: "rb_getused_m (snd (snd (ringbuf_read buf read_buffer n))) = 0"
    by (simp add: rb_getused_m_def t h)
  show ?thesis
    using c d tl t h u by (simp add: read_frame [OF assms(1,3)])
qed

theorem ringbuf_read_past_occupancy_witness:
  "rb_inv \<lparr>buffer = [1, 2, 3, 0, 0, 0, 0, 0], head = 3, tail = 0, len = 8, mask_rb = 7, overflow = 0\<rparr> \<and>
   rb_getused_m \<lparr>buffer = [1, 2, 3, 0, 0, 0, 0, 0], head = 3, tail = 0, len = 8, mask_rb = 7, overflow = 0\<rparr> < 5 \<and>
   (5 :: uint16_t) < len \<lparr>buffer = [1, 2, 3, 0, 0, 0, 0, 0], head = 3, tail = 0, len = 8, mask_rb = 7, overflow = 0\<rparr> \<and>
   unat (5 :: uint16_t) \<le> length [9, 9, 9, 9, 9 :: byte] \<and>
   fst (ringbuf_read \<lparr>buffer = [1, 2, 3, 0, 0, 0, 0, 0], head = 3, tail = 0, len = 8, mask_rb = 7, overflow = 0\<rparr>
     [9, 9, 9, 9, 9] 5) = 0 \<and>
   take 3 (fst (snd (ringbuf_read \<lparr>buffer = [1, 2, 3, 0, 0, 0, 0, 0], head = 3, tail = 0, len = 8, mask_rb = 7, overflow = 0\<rparr>
     [9, 9, 9, 9, 9] 5))) = [1, 2, 3] \<and>
   tail (snd (snd (ringbuf_read \<lparr>buffer = [1, 2, 3, 0, 0, 0, 0, 0], head = 3, tail = 0, len = 8, mask_rb = 7, overflow = 0\<rparr>
     [9, 9, 9, 9, 9] 5))) = 3"
proof -
  let ?B = "\<lparr>buffer = [1, 2, 3, 0, 0, 0, 0, 0 :: byte], head = 3, tail = 0, len = 8, mask_rb = 7, overflow = 0\<rparr>"
  have h1: "rb_inv ?B" by code_simp
  have u: "rb_getused_m ?B = 3" by (simp add: rb_getused_m_def)
  have h2: "rb_getused_m ?B < 5" by (simp add: u)
  have h3: "(5 :: uint16_t) < len ?B" by simp
  have h4: "unat (5 :: uint16_t) \<le> length [9, 9, 9, 9, 9 :: byte]" by simp
  have c: "rb_contents ?B = [1, 2, 3]" by code_simp
  show ?thesis
    using ringbuf_read_past_occupancy [OF h1 h2 h3 h4] h1 h2 by (simp add: u c)
qed

section \<open>The overflow flag\<close>

text \<open>
  C6.  The overflow flag goes from clear to set only in the timer handler's write when that
  write is refused for lack of free space (and \<open>ringbuf_write\<close> changes the flag only
  then, \<open>ringbuf_read\<close> never); it goes from set to clear only in the open block of the
  loop taken with logging on and no file open; and once set it stays set through any run
  of handler and loop actions, successful writes and reads among them, in which no session
  is opened.
\<close>

theorem overflow_flag_discipline:
  "(step a1 s1 = Some s1' \<and> overflow (sdbuf s1) = 0 \<and> overflow (sdbuf s1') \<noteq> 0 \<longrightarrow>
      write_lacks_space a1 s1 \<and> overflow (sdbuf s1') = 1) \<and>
   (overflow (snd (ringbuf_write b data n)) \<noteq> overflow b \<longrightarrow>
      fst (ringbuf_write b data n) \<noteq> 0 \<and> n < len b \<and> rb_getfree_m b < n) \<and>
   overflow (snd (snd (ringbuf_read b' dst m))) = overflow b' \<and>
   (step a2 s2 = Some s2' \<and> overflow (sdbuf s2) \<noteq> 0 \<and> overflow (sdbuf s2') = 0 \<longrightarrow>
      opens_session a2 s2) \<and>
   (exec as s3 = Some s3' \<and> overflow (sdbuf s3) \<noteq> 0 \<and> no_session_opened as s3 \<longrightarrow>
      overflow (sdbuf s3') \<noteq> 0)"
proof (intro conjI impI)
  assume h: "step a1 s1 = Some s1' \<and> overflow (sdbuf s1) = 0 \<and> overflow (sdbuf s1') \<noteq> 0"
  then show w: "write_lacks_space a1 s1" using step_sets_overflow by blast
  then obtain sb now where a1: "a1 = Timer_tick sb now" by (cases a1) auto
  with h w show "overflow (sdbuf s1') = 1"
    by (auto simp: isr_timer_overflow)
next
  assume h: "overflow (snd (ringbuf_write b data n)) \<noteq> overflow b"
  then have c: "n < len b \<and> rb_getfree_m b < n"
    by (simp add: write_overflow split: if_splits)
  then show "fst (ringbuf_write b data n) \<noteq> 0" by (simp add: write_code)
  from c show "n < len b" and "rb_getfree_m b < n" by simp_all
next
  show "overflow (snd (snd (ringbuf_read b' dst m))) = overflow b'" by (rule read_overflow)
next
  assume "step a2 s2 = Some s2' \<and> overflow (sdbuf s2) \<noteq> 0 \<and> overflow (sdbuf s2') = 0"
  then show "opens_session a2 s2" using step_clears_overflow by blast
next
  assume "exec as s3 = Some s3' \<and> overflow (sdbuf s3) \<noteq> 0 \<and> no_session_opened as s3"
  then show "overflow (sdbuf s3') \<noteq> 0" using overflow_sticky by blast
qed

theorem overflow_flag_discipline_witness:
  "step (Timer_tick [6, 7, 8, 9] 1)
     ((logger_init 8)\<lparr>sdbuf := \<lparr>buffer = [1, 2, 3, 4, 5, 0, 0, 0], head = 5, tail = 0, len = 8,
        mask_rb = 7, overflow = 0\<rparr>, logger_running := 1, file_open := 1\<rparr>) =
   Some ((logger_init 8)\<lparr>sdbuf := \<lparr>buffer = [1, 2, 3, 4, 5, 0, 0, 0], head = 5, tail = 0, len = 8,
        mask_rb = 7, overflow = 1\<rparr>, logger_running := 1, file_open := 1,
        trace := [Lcd_row 1 ''Logging: OFF'', Adc_convert]\<rparr>) \<and>
   write_lacks_space (Timer_tick [6, 7, 8, 9] 1)
     ((logger_init 8)\<lparr>sdbuf := \<lparr>buffer = [1, 2, 3, 4, 5, 0, 0, 0], head = 5, tail = 0, len = 8,
        mask_rb = 7, overflow = 0\<rparr>, logger_running := 1, file_open := 1\<rparr>) \<and>
   overflow (snd (ringbuf_write \<lparr>buffer = [1, 2, 3, 4, 5, 0, 0, 0], head = 5, tail = 0, len = 8,
        mask_rb = 7, overflow = 0\<rparr> [6, 7, 8, 9] 4)) \<noteq>
   overflow \<lparr>buffer = [1, 2, 3, 4, 5, 0, 0, 0], head = 5, tail = 0, len = 8,
        mask_rb = 7, overflow = 0\<rparr> \<and>
   rb_getfree_m \<lparr>buffer = [1, 2, 3, 4, 5, 0, 0, 0], head = 5, tail = 0, len = 8,
        mask_rb = 7, overflow = 0\<rparr> < 4 \<and>
   step (Loop_open [FR_OK])
     ((logger_init 8)\<lparr>sdbuf := \<lparr>buffer = [1, 2, 3, 0, 0, 0, 0, 0], head = 3, tail = 3,
        len = 8, mask_rb = 7, overflow = 1\<rparr>, logger_running := 1\<rparr>) =
   Some ((logger_init 8)\<lparr>sdbuf := \<lparr>buffer = [1, 2, 3, 0, 0, 0, 0, 0], head = 3, tail = 3,
        len = 8, mask_rb = 7, overflow = 0\<rparr>, logger_running := 1, file_open := 1,
        trace := [Lcd_row 1 ''Logging: OFF'', Call_f_open, Lcd_debug []]\<rparr>) \<and>
   opens_session (Loop_open [FR_OK])
     ((logger_init 8)\<lparr>sdbuf := \<lparr>buffer = [1, 2, 3, 0, 0, 0, 0, 0], head = 3, tail = 3,
        len = 8, mask_rb = 7, overflow = 1\<rparr>, logger_running := 1\<rparr>) \<and>
   no_session_opened [Timer_tick [7] 2, Loop_drain 0, Button_S1 True 600 600, Loop_close 0 0 [FR_OK]]
     ((logger_init 8)\<lparr>sdbuf := \<lparr>buffer = [1, 2, 3, 4, 5, 0, 0, 0], head = 5, tail = 0, len = 8,
        mask_rb = 7, overflow = 1\<rparr>, logger_running := 1, file_open := 1\<rparr>) \<and>
   exec [Timer_tick [7] 2, Loop_drain 0, Button_S1 True 600 600, Loop_close 0 0 [FR_OK]]
     ((logger_init 8)\<lparr>sdbuf := \<lparr>buffer = [1, 2, 3, 4, 5, 0, 0, 0], head = 5, tail = 0, len = 8,
        mask_rb = 7, overflow = 1\<rparr>, logger_running := 1, file_open := 1\<rparr>) \<noteq> None \<and>
   overflow (sdbuf (the (exec
     [Timer_tick [7] 2, Loop_drain 0, Button_S1 True 600 600, Loop_close 0 0 [FR_OK]]
     ((logger_init 8)\<lparr>sdbuf := \<lparr>buffer = [1, 2, 3, 4, 5, 0, 0, 0], head = 5, tail = 0, len = 8,
        mask_rb = 7, overflow = 1\<rparr>, logger_running := 1, file_open := 1\<rparr>)))) \<noteq> 0"
proof -
  let ?B = "\<lparr>buffer = [1, 2, 3, 4, 5, 0, 0, 0 :: byte], head = 5, tail = 0, len = 8,
        mask_rb = 7, overflow = 0\<rparr>"
  let ?S1 = "(logger_init 8)\<lparr>sdbuf := ?B, logger_running := 1, file_open := 1\<rparr>"
  let ?S1' = "(logger_init 8)\<lparr>sdbuf := ?B\<lparr>overflow := 1\<rparr>, logger_running := 1, file_open := 1,
        trace := [Lcd_row 1 ''Logging: OFF'', Adc_convert]\<rparr>"
  let ?S2 = "(logger_init 8)\<lparr>sdbuf := \<lparr>buffer = [1, 2, 3, 0, 0, 0, 0, 0 :: byte], head = 3, tail = 3,
        len = 8, mask_rb = 7, overflow = 1\<rparr>, logger_running := 1\<rparr>"
  let ?S2' = "(logger_init 8)\<lparr>sdbuf := \<lparr>buffer = [1, 2, 3, 0, 0, 0, 0, 0 :: byte], head = 3, tail = 3,
        len = 8, mask_rb = 7, overflow = 0\<rparr>, logger_running := 1, file_open := 1,
        trace := [Lcd_row 1 ''Logging: OFF'', Call_f_open, Lcd_debug []]\<rparr>"
  let ?as = "[Timer_tick [7] 2, Loop_drain 0, Button_S1 True 600 600, Loop_close 0 0 [FR_OK]]"
  let ?S3 = "(logger_init 8)\<lparr>sdbuf := ?B\<lparr>overflow := 1\<rparr>, logger_running := 1, file_open := 1\<rparr>"
  let ?S3' = "\<lparr>sdbuf = \<lparr>buffer = [1, 2, 3, 4, 5, 7, 0, 0], head = 6, tail = 6, len = 8, mask_rb = 7,
            overflow = 1\<rparr>,
         writebuf = [1, 2, 3, 4, 5, 7] @ replicate 506 0, logger_running = 0, file_open = 0,
         time = 600, ta1_up = False,
         trace = [Lcd_row 1 ''Logging: OFF'', Adc_convert, Lcd_row 1 ''Logging: OFF'',
                  Call_f_write [1, 2, 3, 4, 5, 7], Call_f_sync, Call_f_close]\<rparr>"
  note t = overflow_flag_discipline [of "Timer_tick [6, 7, 8, 9] 1" ?S1 ?S1' ?B "[6, 7, 8, 9]" 4
      ?B "[]" 0 "Loop_open [FR_OK]" ?S2 ?S2' ?as ?S3 ?S3']
  have f: "rb_getfree_m ?B < 4" by (simp add: rb_getfree_m_def)
  have s1: "step (Timer_tick [6, 7, 8, 9] 1) ?S1 = Some ?S1'"
    using f by (simp add: TIMER1_A0_ISR_def logger_init_def ringbuf_write_def)
  have o1: "overflow (sdbuf ?S1) = 0" "overflow (sdbuf ?S1') \<noteq> 0" by simp_all
  have c1: "write_lacks_space (Timer_tick [6, 7, 8, 9] 1) ?S1"
    using t s1 o1 by blast
  have w: "overflow (snd (ringbuf_write ?B [6, 7, 8, 9] 4)) \<noteq> overflow ?B"
    using f by (simp add: ringbuf_write_def)
  have s2: "step (Loop_open [FR_OK]) ?S2 = Some ?S2'"
    by (simp add: sd_setup_open_def logger_init_def FR_OK_def)
  have o2: "overflow (sdbuf ?S2) \<noteq> 0" "overflow (sdbuf ?S2') = 0" by simp_all
  have c2: "opens_session (Loop_open [FR_OK]) ?S2"
    using t s2 o2 by blast
  have e: "exec ?as ?S3 = Some ?S3'" using overflow_sticky_run by simp
  have n: "no_session_opened ?as ?S3" using overflow_sticky_run_no_open by simp
  have o3: "overflow (sdbuf ?S3) \<noteq> 0" by simp
  have c3: "overflow (sdbuf ?S3') \<noteq> 0" using t e n o3 by blast
  have e': "exec ?as ?S3 \<noteq> None" using e by simp
  have c3': "overflow (sdbuf (the (exec ?as ?S3))) \<noteq> 0" using c3 e by simp
  have s1': "step (Timer_tick [6, 7, 8, 9] 1) ?S1 =
    Some ((logger_init 8)\<lparr>sdbuf := \<lparr>buffer = [1, 2, 3, 4, 5, 0, 0, 0], head = 5, tail = 0, len = 8,
        mask_rb = 7, overflow = 1\<rparr>, logger_running := 1, file_open := 1,
        trace := [Lcd_row 1 ''Logging: OFF'', Adc_convert]\<rparr>)"
    using s1 by simp
  have n': "no_session_opened ?as ((logger_init 8)\<lparr>sdbuf := \<lparr>buffer = [1, 2, 3, 4, 5, 0, 0, 0],
        head = 5, tail = 0, len = 8, mask_rb = 7, overflow = 1\<rparr>, logger_running := 1, file_open := 1\<rparr>)"
    using n by simp
  have e'': "exec ?as ((logger_init 8)\<lparr>sdbuf := \<lparr>buffer = [1, 2, 3, 4, 5, 0, 0, 0],
        head = 5, tail = 0, len = 8, mask_rb = 7, overflow = 1\<rparr>, logger_running := 1, file_open := 1\<rparr>)
      \<noteq> None"
    using e' by simp
  have c3'': "overflow (sdbuf (the (exec ?as ((logger_init 8)\<lparr>sdbuf := \<lparr>buffer = [1, 2, 3, 4, 5, 0, 0, 0],
        head = 5, tail = 0, len = 8, mask_rb = 7, overflow = 1\<rparr>, logger_running := 1, file_open := 1\<rparr>))))
      \<noteq> 0"
    using c3' by simp
  show ?thesis using s1' c1 w f s2 c2 n' e'' c3'' by (intro conjI)
qed

section \<open>Opening a session\<close>




section \<open>Closing a session\<close>

text \<open>
  What the close block does when the buffered bytes fit \<open>writebuf\<close>.  Run with logging
  off and a file open, the ring buffer in its invariant: if \<open>f_close\<close> succeeds at some
  attempt, the block returns, and its calls to the storage driver are, in order, one
  \<open>f_write\<close> of all the buffered bytes, one \<open>f_sync\<close>, and \<open>f_close\<close> once per failed
  attempt and once more for the attempt that returns \<open>FR_OK\<close>, which is the last; in the
  state it returns \<open>file_open\<close> is 0 and the buffer is empty.  If \<open>f_close\<close> never
  succeeds the block does not return.
\<close>

lemma close_block_order_when_fits:
  assumes "logger_running st = 0" "file_open st \<noteq> 0" "rb_inv (sdbuf st)"
    "unat (rb_getused_m (sdbuf st)) \<le> length (writebuf st)"
  shows "(FR_OK \<in> set crs \<longrightarrow>
      (\<exists>st' tr. sd_setup_close wr sr crs st = Some st' \<and> trace st' = trace st @ tr \<and>
         filter is_storage_call tr =
           [Call_f_write (rb_contents (sdbuf st)), Call_f_sync] @
           replicate (Suc (length (takeWhile (\<lambda>x. x \<noteq> FR_OK) crs))) Call_f_close \<and>
         crs ! length (takeWhile (\<lambda>x. x \<noteq> FR_OK) crs) = FR_OK \<and>
         file_open st' = 0 \<and> rb_getused_m (sdbuf st') = 0)) \<and>
    (FR_OK \<notin> set crs' \<longrightarrow> sd_setup_close wr sr crs' st = None)"
proof (intro conjI impI)
  from sd_write_all [OF assms(3,4), of wr] obtain st1 where
    w: "sd_write wr (rb_getused_m (sdbuf st)) st = Some (wr, st1)"
    and tr1: "trace st1 = trace st @ Call_f_write (rb_contents (sdbuf st)) #
      (if wr \<noteq> 0 then [Lcd_debug_code ''write fail'' wr] else [])"
    and u1: "rb_getused_m (sdbuf st1) = 0"
    by blast
  {
    assume ok: "FR_OK \<in> set crs"
    then obtain c cs where crs: "crs = c # cs" by (cases crs) auto
    let ?sy = "Call_f_sync # (if sr \<noteq> 0 then [Lcd_debug ''sync fail''] else [])"
    let ?tr3 = "trace st1 @ ?sy"
    from close_retry_returns [of c cs "?tr3 @ [Call_f_close]"] ok crs obtain tr' where
      cr: "close_retry c cs (?tr3 @ [Call_f_close]) = Some ((?tr3 @ [Call_f_close]) @ tr')"
      and ftr: "filter is_storage_call tr' =
        replicate (length (takeWhile (\<lambda>x. x \<noteq> FR_OK) crs)) Call_f_close"
      by auto
    let ?st' = "st1\<lparr>trace := (?tr3 @ [Call_f_close]) @ tr', file_open := 0\<rparr>"
    let ?tr = "Call_f_write (rb_contents (sdbuf st)) #
      (if wr \<noteq> 0 then [Lcd_debug_code ''write fail'' wr] else []) @ ?sy @ [Call_f_close] @ tr'"
    have res: "sd_setup_close wr sr crs st = Some ?st'"
      using assms(1,2) w cr by (cases "sr = 0") (simp_all add: sd_setup_close_def crs Let_def)
    have t: "trace ?st' = trace st @ ?tr" by (simp add: tr1)
    have f: "filter is_storage_call ?tr =
      [Call_f_write (rb_contents (sdbuf st)), Call_f_sync] @
      replicate (Suc (length (takeWhile (\<lambda>x. x \<noteq> FR_OK) crs))) Call_f_close"
      by (simp add: ftr)
    have "length (takeWhile (\<lambda>x. x \<noteq> FR_OK) crs) < length crs"
      using ok by (rule takeWhile_stops)
    then have "\<not> (crs ! length (takeWhile (\<lambda>x. x \<noteq> FR_OK) crs) \<noteq> FR_OK)"
      by (rule nth_length_takeWhile)
    then have l: "crs ! length (takeWhile (\<lambda>x. x \<noteq> FR_OK) crs) = FR_OK" by simp
    show "\<exists>st' tr. sd_setup_close wr sr crs st = Some st' \<and> trace st' = trace st @ tr \<and>
         filter is_storage_call tr =
           [Call_f_write (rb_contents (sdbuf st)), Call_f_sync] @
           replicate (Suc (length (takeWhile (\<lambda>x. x \<noteq> FR_OK) crs))) Call_f_close \<and>
         crs ! length (takeWhile (\<lambda>x. x \<noteq> FR_OK) crs) = FR_OK \<and>
         file_open st' = 0 \<and> rb_getused_m (sdbuf st') = 0"
      using res t f l u1 by (intro exI [of _ ?st'] exI [of _ ?tr]) simp
  }
  {
    assume no: "FR_OK \<notin> set crs'"
    show "sd_setup_close wr sr crs' st = None"
    proof (cases crs')
      case Nil
      then show ?thesis using assms(1,2) w by (simp add: sd_setup_close_def Let_def)
    next
      case (Cons c cs)
      then show ?thesis
        using assms(1,2) w no close_retry_hangs [of c cs]
        by (simp add: sd_setup_close_def Let_def)
    qed
  }
qed

lemma close_block_order_example:
  "logger_running ((logger_init 8)\<lparr>sdbuf := \<lparr>buffer = [1, 2, 3, 0, 0, 0, 0, 0], head = 3, tail = 0,
      len = 8, mask_rb = 7, overflow = 0\<rparr>, file_open := 1\<rparr>) = 0 \<and>
   file_open ((logger_init 8)\<lparr>sdbuf := \<lparr>buffer = [1, 2, 3, 0, 0, 0, 0, 0], head = 3, tail = 0,
      len = 8, mask_rb = 7, overflow = 0\<rparr>, file_open := 1\<rparr>) \<noteq> 0 \<and>
   rb_inv \<lparr>buffer = [1, 2, 3, 0, 0, 0, 0, 0], head = 3, tail = 0, len = 8, mask_rb = 7, overflow = 0\<rparr> \<and>
   unat (rb_getused_m \<lparr>buffer = [1, 2, 3, 0, 0, 0, 0, 0], head = 3, tail = 0, len = 8, mask_rb = 7,
      overflow = 0\<rparr>) \<le> length (writebuf (logger_init 8)) \<and>
   FR_OK \<in> set [1, FR_OK] \<and> FR_OK \<notin> set [1, 1] \<and>
   map_option (\<lambda>st'. (filter is_storage_call (drop (length (trace (logger_init 8))) (trace st')),
       file_open st', rb_getused_m (sdbuf st')))
     (sd_setup_close 0 0 [1, FR_OK]
       ((logger_init 8)\<lparr>sdbuf := \<lparr>buffer = [1, 2, 3, 0, 0, 0, 0, 0], head = 3, tail = 0,
          len = 8, mask_rb = 7, overflow = 0\<rparr>, file_open := 1\<rparr>)) =
     Some ([Call_f_write [1, 2, 3], Call_f_sync, Call_f_close, Call_f_close], 0, 0) \<and>
   sd_setup_close 0 0 [1, 1]
     ((logger_init 8)\<lparr>sdbuf := \<lparr>buffer = [1, 2, 3, 0, 0, 0, 0, 0], head = 3, tail = 0,
        len = 8, mask_rb = 7, overflow = 0\<rparr>, file_open := 1\<rparr>) = None"
proof -
  let ?B = "\<lparr>buffer = [1, 2, 3, 0, 0, 0, 0, 0 :: byte], head = 3, tail = 0, len = 8, mask_rb = 7,
    overflow = 0\<rparr>"
  let ?S = "(logger_init 8)\<lparr>sdbuf := ?B, file_open := 1\<rparr>"
  have h1: "logger_running ?S = 0" by (simp add: logger_init_def)
  have h2: "file_open ?S \<noteq> 0" by simp
  have inv: "rb_inv ?B" by code_simp
  have h3: "rb_inv (sdbuf ?S)" using inv by simp
  have u: "rb_getused_m ?B = 3" by (simp add: rb_getused_m_def)
  have h4: "unat (rb_getused_m (sdbuf ?S)) \<le> length (writebuf ?S)"
    by (simp add: u logger_init_def)
  have c: "rb_contents ?B = [1, 2, 3]" by code_simp
  have h5: "FR_OK \<in> set [1, FR_OK]" and h6: "FR_OK \<notin> set [1, 1]"
    by (simp_all add: FR_OK_def)
  note t = close_block_order_when_fits [OF h1 h2 h3 h4, of "[1, FR_OK]" 0 0 "[1, 1]"]
  from t h5 obtain st' tr where
    r: "sd_setup_close 0 0 [1, FR_OK] ?S = Some st'" and tr: "trace st' = trace ?S @ tr"
    and f: "filter is_storage_call tr =
      [Call_f_write (rb_contents (sdbuf ?S)), Call_f_sync] @
      replicate (Suc (length (takeWhile (\<lambda>x. x \<noteq> FR_OK) [1, FR_OK]))) Call_f_close"
    and fo: "file_open st' = 0" and us: "rb_getused_m (sdbuf st') = 0"
    by blast
  have f': "filter is_storage_call tr = [Call_f_write [1, 2, 3], Call_f_sync, Call_f_close, Call_f_close]"
    using f by (simp add: c FR_OK_def)
  have d: "drop (length (trace (logger_init 8))) (trace st') = tr"
    by (simp add: tr)
  have a: "map_option (\<lambda>st'. (filter is_storage_call (drop (length (trace (logger_init 8))) (trace st')),
       file_open st', rb_getused_m (sdbuf st'))) (sd_setup_close 0 0 [1, FR_OK] ?S) =
     Some ([Call_f_write [1, 2, 3], Call_f_sync, Call_f_close, Call_f_close], 0, 0)"
    by (simp only: r option.map d f' fo us)
  have b: "sd_setup_close 0 0 [1, 1] ?S = None" using t h6 by blast
  have h4': "unat (rb_getused_m ?B) \<le> length (writebuf (logger_init 8))"
    using h4 by simp
  show ?thesis
    using h1 h2 inv h4' h5 h6 a b by (intro conjI)
qed

text \<open>
  C8.  The claim is that on stop the supervisor drains whatever remains in the ring buffer
  as a final write, then syncs, then closes.  The loop drains a block only once the
  occupancy exceeds 512, so a stop can find more than 512 bytes buffered: with a buffer of
  1024 bytes and 8-byte samples, 64 ticks leave 512 bytes, which the drain block passes
  over, one more tick makes 520, and S1 is pressed.  The close block then calls
  \<open>sd_write\<close> with \<open>n = 520\<close>, which copies 520 bytes into the 512 cells of \<open>writebuf\<close> and
  hands \<open>f_write\<close> 520 bytes of it: the copy runs past the array, and the block has no
  defined result.
\<close>

theorem close_on_stop_overruns_writebuf:
  "exec (Button_S1 True 300 300 # Loop_open [FR_OK] #
         replicate 64 (Timer_tick [1, 2, 3, 4, 5, 6, 7, 8] 1) @
         [Loop_drain 0, Timer_tick [1, 2, 3, 4, 5, 6, 7, 8] 1, Button_S1 True 600 600])
     (logger_init 1024) \<noteq> None \<and>
   logger_running (the (exec (Button_S1 True 300 300 # Loop_open [FR_OK] #
         replicate 64 (Timer_tick [1, 2, 3, 4, 5, 6, 7, 8] 1) @
         [Loop_drain 0, Timer_tick [1, 2, 3, 4, 5, 6, 7, 8] 1, Button_S1 True 600 600])
     (logger_init 1024))) = 0 \<and>
   file_open (the (exec (Button_S1 True 300 300 # Loop_open [FR_OK] #
         replicate 64 (Timer_tick [1, 2, 3, 4, 5, 6, 7, 8] 1) @
         [Loop_drain 0, Timer_tick [1, 2, 3, 4, 5, 6, 7, 8] 1, Button_S1 True 600 600])
     (logger_init 1024))) \<noteq> 0 \<and>
   rb_getused_m (sdbuf (the (exec (Button_S1 True 300 300 # Loop_open [FR_OK] #
         replicate 64 (Timer_tick [1, 2, 3, 4, 5, 6, 7, 8] 1) @
         [Loop_drain 0, Timer_tick [1, 2, 3, 4, 5, 6, 7, 8] 1, Button_S1 True 600 600])
     (logger_init 1024)))) = 520 \<and>
   length (writebuf (the (exec (Button_S1 True 300 300 # Loop_open [FR_OK] #
         replicate 64 (Timer_tick [1, 2, 3, 4, 5, 6, 7, 8] 1) @
         [Loop_drain 0, Timer_tick [1, 2, 3, 4, 5, 6, 7, 8] 1, Button_S1 True 600 600])
     (logger_init 1024)))) = 512 \<and>
   sd_write 0 520 (the (exec (Button_S1 True 300 300 # Loop_open [FR_OK] #
         replicate 64 (Timer_tick [1, 2, 3, 4, 5, 6, 7, 8] 1) @
         [Loop_drain 0, Timer_tick [1, 2, 3, 4, 5, 6, 7, 8] 1, Button_S1 True 600 600])
     (logger_init 1024))) = None \<and>
   sd_setup_close 0 0 [FR_OK] (the (exec (Button_S1 True 300 300 # Loop_open [FR_OK] #
         replicate 64 (Timer_tick [1, 2, 3, 4, 5, 6, 7, 8] 1) @
         [Loop_drain 0, Timer_tick [1, 2, 3, 4, 5, 6, 7, 8] 1, Button_S1 True 600 600])
     (logger_init 1024))) = None"
proof -
  from stop_with_520_buffered obtain st where
    e: "exec (Button_S1 True 300 300 # Loop_open [FR_OK] #
             replicate 64 (Timer_tick [1, 2, 3, 4, 5, 6, 7, 8] 1) @
             [Loop_drain 0, Timer_tick [1, 2, 3, 4, 5, 6, 7, 8] 1, Button_S1 True 600 600])
          (logger_init 1024) = Some st"
    and u: "rb_getused_m (sdbuf st) = 520" and r: "logger_running st = 0"
    and f: "file_open st = 1" and w: "length (writebuf st) = 512"
    by blast
  have sw: "sd_write 0 520 st = None" by (simp add: sd_write_def w)
  have cl: "sd_setup_close 0 0 [FR_OK] st = None"
    by (simp add: sd_setup_close_def r f u sw)
  show ?thesis
    unfolding e option.sel using u r f w sw cl by simp
qed

section \<open>The debounced button\<close>

text \<open>
  Against C9 as stated: an edge of button S1 arriving exactly 250 ticks after the last
  accepted toggle is not below the interval of 250, yet the handler ignores it and
  \<open>logger_running\<close> keeps its value.
\<close>

theorem debounce_boundary_ignored:
  "\<not> (250 - time (logger_init 8) < 250) \<and>
   PORT1_ISR True 250 250 (logger_init 8) = logger_init 8 \<and>
   logger_running (PORT1_ISR True 250 250 (logger_init 8)) = logger_running (logger_init 8)"
  by (simp add: PORT1_ISR_def logger_init_def)

text \<open>
  C9, amended.  On an edge of button S1, if at most 250 ticks (modulo \<open>2 ^ 32\<close>) have
  elapsed since the last accepted toggle the edge is ignored and nothing changes; if more
  than 250 have elapsed, \<open>logger_running\<close> is flipped and the tick read after the test is
  recorded.  So when an edge is accepted and the next edge comes at most 250 ticks after
  the recorded tick, the second edge is ignored: the two edges make exactly one
  transition.
\<close>

theorem debounce_S1:
  "(now_a - time st_a \<le> 250 \<longrightarrow> PORT1_ISR True now_a now_a' st_a = st_a) \<and>
   (now_b - time st_b > 250 \<longrightarrow>
      logger_running (PORT1_ISR True now_b now_b' st_b) = (if logger_running st_b \<noteq> 0 then 0 else 1) \<and>
      time (PORT1_ISR True now_b now_b' st_b) = now_b') \<and>
   (now_c - time st_c > 250 \<and> now_d - now_c' \<le> 250 \<longrightarrow>
      PORT1_ISR True now_d now_d' (PORT1_ISR True now_c now_c' st_c) =
        PORT1_ISR True now_c now_c' st_c \<and>
      (logger_running (PORT1_ISR True now_c now_c' st_c) = 0) = (logger_running st_c \<noteq> 0))"
  by (auto simp: PORT1_ISR_def logger_enable_def logger_disable_def Let_def
      linorder_not_less [symmetric])

theorem debounce_S1_witness:
  "100 - time (logger_init 8) \<le> 250 \<and>
   PORT1_ISR True 100 100 (logger_init 8) = logger_init 8 \<and>
   300 - time (logger_init 8) > 250 \<and>
   logger_running (PORT1_ISR True 300 301 (logger_init 8)) = 1 \<and>
   time (PORT1_ISR True 300 301 (logger_init 8)) = 301 \<and>
   (400 :: uint32_t) - 301 \<le> 250 \<and>
   PORT1_ISR True 400 400 (PORT1_ISR True 300 301 (logger_init 8)) =
     PORT1_ISR True 300 301 (logger_init 8)"
proof -
  have h1: "100 - time (logger_init 8) \<le> 250" by (simp add: logger_init_def)
  have h2: "300 - time (logger_init 8) > 250" by (simp add: logger_init_def)
  have h3: "(400 :: uint32_t) - 301 \<le> 250" by simp
  have r: "logger_running (logger_init 8) = 0" by (simp add: logger_init_def)
  note t = debounce_S1 [of 100 "logger_init 8" 100 300 "logger_init 8" 301 300 "logger_init 8" 400 301 400]
  have a: "PORT1_ISR True 100 100 (logger_init 8) = logger_init 8"
    using t h1 by blast
  have b: "logger_running (PORT1_ISR True 300 301 (logger_init 8)) = 1"
    "time (PORT1_ISR True 300 301 (logger_init 8)) = 301"
    using t h2 r by simp_all
  have c: "PORT1_ISR True 400 400 (PORT1_ISR True 300 301 (logger_init 8)) =
     PORT1_ISR True 300 301 (logger_init 8)"
    using t h2 h3 by blast
  show ?thesis using h1 a h2 b h3 c by (intro conjI)
qed

section \<open>Writes that fill the free space exactly\<close>

text \<open>
  C10.  On a buffer in the program's invariant with \<open>head \<noteq> tail\<close>, a write of exactly
  \<open>rb_getfree_m buf\<close> bytes returns 0 and leaves \<open>head = tail\<close>; \<open>rb_getused_m\<close> then
  reports 0 and \<open>rb_getfree_m\<close> the whole length.  The bytes just written are never handed
  out: a read right after copies nothing, and what any later sequence of calls returns is
  the same whatever bytes that write was given.
\<close>

theorem exact_fill_loses_the_write:
  assumes "rb_inv buf" "head buf \<noteq> tail buf" "n = rb_getfree_m buf"
  shows "fst (ringbuf_write buf data n) = 0 \<and>
    head (snd (ringbuf_write buf data n)) = tail (snd (ringbuf_write buf data n)) \<and>
    rb_getused_m (snd (ringbuf_write buf data n)) = 0 \<and>
    rb_getfree_m (snd (ringbuf_write buf data n)) = len buf \<and>
    rb_contents (snd (ringbuf_write buf data n)) = [] \<and>
    (\<forall>dst m. fst (snd (ringbuf_read (snd (ringbuf_write buf data n)) dst m)) = dst) \<and>
    (\<forall>data' ops. fst (rb_run ops (snd (ringbuf_write buf data n))) =
                  fst (rb_run ops (snd (ringbuf_write buf data' n))))"
proof -
  let ?b' = "snd (ringbuf_write buf data n)"
  note e = exact_fill [OF assms]
  have fr: "tail ?b' = tail buf" "len ?b' = len buf" "mask_rb ?b' = mask_rb buf"
    "overflow ?b' = overflow buf"
    using assms(1) e(1,2) by (rule write_frame)+
  have r: "fst (ringbuf_write buf data n) = 0" using assms(1) e(1,2) by (rule write_frame)
  have ht: "head ?b' = tail ?b'" by (simp add: e(4) fr)
  have u: "rb_getused_m ?b' = 0" by (simp add: rb_getused_m_def ht)
  have f: "rb_getfree_m ?b' = len buf" by (simp add: rb_getfree_m_def ht fr)
  have c: "rb_contents ?b' = []" by (simp add: rb_contents_empty u)
  have inv': "rb_inv ?b'" using assms(1) by (rule rb_inv_write)
  have rd: "fst (snd (ringbuf_read ?b' dst m)) = dst" for dst m
  proof (cases "len ?b' \<le> m")
    case True
    then show ?thesis by (simp add: ringbuf_read_def)
  next
    case False
    then have m: "m < len ?b'" by simp
    show ?thesis
    proof (rule nth_equalityI)
      show "length (fst (snd (ringbuf_read ?b' dst m))) = length dst"
        using inv' m by (rule read_frame)
      fix i assume "i < length (fst (snd (ringbuf_read ?b' dst m)))"
      then have "i < length dst" by (simp add: read_frame [OF inv' m])
      then show "fst (snd (ringbuf_read ?b' dst m)) ! i = dst ! i"
        by (simp add: read_out_nth [OF inv' m] u)
    qed
  qed
  have ni: "fst (rb_run ops ?b') = fst (rb_run ops (snd (ringbuf_write buf data' n)))" for data' ops
  proof -
    let ?b'' = "snd (ringbuf_write buf data' n)"
    note e' = exact_fill(4) [OF assms, of data']
    have fr': "tail ?b'' = tail buf" "len ?b'' = len buf" "mask_rb ?b'' = mask_rb buf"
      "overflow ?b'' = overflow buf"
      using assms(1) e(1,2) by (rule write_frame)+
    have ht': "head ?b'' = tail ?b''" by (simp add: e' fr')
    have u': "rb_getused_m ?b'' = 0" by (simp add: rb_getused_m_def ht')
    have inv'': "rb_inv ?b''" using assms(1) by (rule rb_inv_write)
    have "same_view ?b' ?b''"
      using inv' inv'' by (simp add: same_view_def e(4) e' fr fr' c rb_contents_empty u')
    then show ?thesis by (rule same_view_run)
  qed
  show ?thesis using r ht u f c rd ni by blast
qed

theorem exact_fill_loses_the_write_witness:
  "rb_inv \<lparr>buffer = [1, 0, 0, 0], head = 1, tail = 0, len = 4, mask_rb = 3, overflow = 0\<rparr> \<and>
   head \<lparr>buffer = [1, 0, 0, 0], head = 1, tail = 0, len = 4, mask_rb = 3, overflow = 0\<rparr> \<noteq>
   tail \<lparr>buffer = [1, 0, 0, 0], head = 1, tail = 0, len = 4, mask_rb = 3, overflow = 0\<rparr> \<and>
   3 = rb_getfree_m \<lparr>buffer = [1, 0, 0, 0], head = 1, tail = 0, len = 4, mask_rb = 3, overflow = 0\<rparr> \<and>
   ringbuf_write \<lparr>buffer = [1, 0, 0, 0], head = 1, tail = 0, len = 4, mask_rb = 3, overflow = 0\<rparr> [2, 3, 4] 3 =
     (0, \<lparr>buffer = [1, 2, 3, 4], head = 0, tail = 0, len = 4, mask_rb = 3, overflow = 0\<rparr>) \<and>
   rb_getused_m (snd (ringbuf_write
     \<lparr>buffer = [1, 0, 0, 0], head = 1, tail = 0, len = 4, mask_rb = 3, overflow = 0\<rparr> [2, 3, 4] 3)) = 0 \<and>
   fst (rb_run [Op_read [0, 0, 0] 3, Op_write [5] 1, Op_read [0] 1] (snd (ringbuf_write
     \<lparr>buffer = [1, 0, 0, 0], head = 1, tail = 0, len = 4, mask_rb = 3, overflow = 0\<rparr> [2, 3, 4] 3))) =
   fst (rb_run [Op_read [0, 0, 0] 3, Op_write [5] 1, Op_read [0] 1] (snd (ringbuf_write
     \<lparr>buffer = [1, 0, 0, 0], head = 1, tail = 0, len = 4, mask_rb = 3, overflow = 0\<rparr> [7, 8, 9] 3)))"
proof -
  let ?B = "\<lparr>buffer = [1, 0, 0, 0 :: byte], head = 1, tail = 0, len = 4, mask_rb = 3, overflow = 0\<rparr>"
  have h1: "rb_inv ?B" by code_simp
  have h2: "head ?B \<noteq> tail ?B" by simp
  have h3: "3 = rb_getfree_m ?B" by (simp add: rb_getfree_m_def)
  have w: "ringbuf_write ?B [2, 3, 4] 3 =
    (0, \<lparr>buffer = [1, 2, 3, 4], head = 0, tail = 0, len = 4, mask_rb = 3, overflow = 0\<rparr>)"
    by code_simp
  note t = exact_fill_loses_the_write [OF h1 h2 h3, of "[2, 3, 4]"]
  have u: "rb_getused_m (snd (ringbuf_write ?B [2, 3, 4] 3)) = 0"
    using t by blast
  have ni: "fst (rb_run [Op_read [0, 0, 0] 3, Op_write [5] 1, Op_read [0] 1]
      (snd (ringbuf_write ?B [2, 3, 4] 3))) =
    fst (rb_run [Op_read [0, 0, 0] 3, Op_write [5] 1, Op_read [0] 1]
      (snd (ringbuf_write ?B [7, 8, 9] 3)))"
    using t by blast
  show ?thesis
    using h1 h2 h3 w u ni by (intro conjI)
qed

end
